theory Spec2Isabelle
  imports Main "HOL-Library.Char_ord" "HOL-Library.AList"
begin

chapter \<open>parse-commit-message: parsing, checking and writing commit messages\<close>

text \<open>
  A model of the library's functions, file by file, with the regular expressions they use
  given a semantics of their own, followed by the properties of the library that are
  proved about the model.
\<close>

section \<open>JavaScript values used by the library\<close>

text \<open>
  The library is TypeScript. A property declared \<open>x?: T\<close> can be missing from the object,
  be present with the value \<open>undefined\<close>, or hold a \<open>T\<close>; object spread and the
  \<open>in\<close> operator tell the first two apart, so the model keeps all three. A type
  \<open>T | null\<close> adds \<open>null\<close>.
\<close>

datatype 'a optional = Absent | Undefined | Present 'a

datatype 'a nullable = Null | Value 'a

text \<open>
  Thrown exceptions are values: the constructor (\<open>TypeError\<close> or \<open>Error\<close>) and the
  message. A function that can throw returns \<open>js_error + 'a\<close>, \<open>Inl\<close> for the throw.
\<close>

datatype js_error = TypeError string | Error string

section \<open>Strings\<close>

text \<open>
  A JavaScript string is a sequence of UTF-16 code units. The model uses \<open>string\<close>: it
  covers the strings whose code units are all below 256, a \<open>char\<close> standing for the
  code unit of the same number. In that range the line terminators are LF and CR, and the
  white space that \<open>trim\<close> and \<open>\s\<close> recognise is TAB, LF, VT, FF, CR, space and
  NBSP.
\<close>

definition isLineTerminator :: "char \<Rightarrow> bool" where
  "isLineTerminator c = (c = CHR 0x0A \<or> c = CHR 0x0D)"

definition isWhiteSpace :: "char \<Rightarrow> bool" where
  "isWhiteSpace c =
     (c = CHR 0x09 \<or> c = CHR 0x0A \<or> c = CHR 0x0B \<or> c = CHR 0x0C \<or> c = CHR 0x0D
      \<or> c = CHR 0x20 \<or> c = CHR 0xA0)"

definition isWordChar :: "char \<Rightarrow> bool" where
  "isWordChar c =
     ((CHR ''a'' \<le> c \<and> c \<le> CHR ''z'') \<or> (CHR ''A'' \<le> c \<and> c \<le> CHR ''Z'')
      \<or> (CHR ''0'' \<le> c \<and> c \<le> CHR ''9'') \<or> c = CHR ''_'')"

text \<open>\<open>String.prototype.trim\<close>.\<close>

definition trim :: "string \<Rightarrow> string" where
  "trim s = rev (dropWhile isWhiteSpace (rev (dropWhile isWhiteSpace s)))"

text \<open>\<open>String.prototype.endsWith\<close>.\<close>

definition endsWith :: "string \<Rightarrow> string \<Rightarrow> bool" where
  "endsWith s suffix =
     (length suffix \<le> length s \<and> drop (length s - length suffix) s = suffix)"

text \<open>
  \<open>s.split("\n\n")\<close>: the pieces between the occurrences of the separator, found from
  left to right without overlap; a string without the separator is the only piece.
\<close>

fun split_blank :: "string \<Rightarrow> string list" where
  "split_blank [] = [[]]"
| "split_blank [c] = [[c]]"
| "split_blank (c # d # cs) =
     (if c = CHR 0x0A \<and> d = CHR 0x0A then [] # split_blank cs
      else (case split_blank (d # cs) of
              [] \<Rightarrow> [[c]]
            | piece # pieces \<Rightarrow> (c # piece) # pieces))"

section \<open>Regular expressions\<close>

text \<open>
  The fragment of ECMAScript regular expressions that the library's patterns are written
  in, with the backtracking semantics of the language: \<open>matches\<close> lists, in the order
  in which the matcher tries them, the states in which a pattern can stop when started in
  a given state. The first element is the match that \<open>exec\<close> reports. Quantifiers with
  a count stand on a single character class, which is all the patterns need; \<open>?\<close> stands
  on any pattern.
\<close>

datatype char_class =
    Word
  | Space
  | Dot
  | OneOf "char list" "(char \<times> char) list"
  | NoneOf "char list" "(char \<times> char) list"

text \<open>
  \<open>Char c\<close> is a pattern character, \<open>Class k\<close> a class; \<open>Seq\<close> and \<open>Alt\<close> are
  sequence and \<open>|\<close>; \<open>Opt r\<close> is \<open>r?\<close>; \<open>Repeat k lo hi\<close> is the class \<open>k\<close>
  repeated \<open>lo\<close> to \<open>hi\<close> times, without an upper bound when \<open>hi\<close> is \<open>None\<close>
  (so \<open>k+\<close> is \<open>Repeat k 1 None\<close>); \<open>Group n r\<close> is the \<open>n\<close>-th capturing group,
  counted by its opening parenthesis; \<open>LineStart\<close>, \<open>LineEnd\<close> and
  \<open>WordBoundary\<close> are \<open>^\<close>, \<open>$\<close> (both without the \<open>m\<close> flag) and \<open>\b\<close>;
  \<open>NotFollowedBy r\<close> is \<open>(?!r)\<close>. A group that does not capture is just its content.
\<close>

datatype regex =
    Empty
  | Char char
  | Class char_class
  | Seq regex regex
  | Alt regex regex
  | Opt regex
  | Repeat char_class nat "nat option"
  | Group nat regex
  | LineStart
  | LineEnd
  | WordBoundary
  | NotFollowedBy regex

text \<open>The members of a class: \<open>\w\<close>, \<open>\s\<close>, \<open>.\<close>, \<open>[...]\<close> and \<open>[^...]\<close>.\<close>

definition in_ranges :: "(char \<times> char) list \<Rightarrow> char \<Rightarrow> bool" where
  "in_ranges rs c = list_ex (\<lambda>(lo, hi). lo \<le> c \<and> c \<le> hi) rs"

fun member_class :: "char_class \<Rightarrow> char \<Rightarrow> bool" where
  "member_class Word c = isWordChar c"
| "member_class Space c = isWhiteSpace c"
| "member_class Dot c = (\<not> isLineTerminator c)"
| "member_class (OneOf cs rs) c = (c \<in> set cs \<or> in_ranges rs c)"
| "member_class (NoneOf cs rs) c = (\<not> (c \<in> set cs \<or> in_ranges rs c))"

text \<open>
  The \<open>i\<close> flag compares canonical forms: the upper-case mapping of a code unit, kept
  only when it is a single code unit and does not turn a non-ASCII character into an
  ASCII one. Two different characters below 256 have the same canonical form exactly when
  one is the other's case partner, which \<open>swapCase\<close> computes.
\<close>

definition swapCase :: "char \<Rightarrow> char" where
  "swapCase c =
     (let n = (of_char c :: nat) in
      if (97 \<le> n \<and> n \<le> 122) \<or> (224 \<le> n \<and> n \<le> 254 \<and> n \<noteq> 247) then char_of (n - 32)
      else if (65 \<le> n \<and> n \<le> 90) \<or> (192 \<le> n \<and> n \<le> 222 \<and> n \<noteq> 215) then char_of (n + 32)
      else c)"

definition char_matches :: "bool \<Rightarrow> char \<Rightarrow> char \<Rightarrow> bool" where
  "char_matches ignoreCase pat c = (c = pat \<or> (ignoreCase \<and> swapCase c = pat))"

definition class_matches :: "bool \<Rightarrow> char_class \<Rightarrow> char \<Rightarrow> bool" where
  "class_matches ignoreCase k c =
     (case k of
        NoneOf cs rs \<Rightarrow>
          \<not> (member_class (OneOf cs rs) c \<or> (ignoreCase \<and> member_class (OneOf cs rs) (swapCase c)))
      | _ \<Rightarrow> member_class k c \<or> (ignoreCase \<and> member_class k (swapCase c)))"

text \<open>
  A matcher state: the input before the current position, the input from it on, and the
  captures so far (group \<open>n\<close> at index \<open>n - 1\<close>, \<open>None\<close> for \<open>undefined\<close>).
\<close>

type_synonym mstate = "string \<times> string \<times> string option list"

text \<open>
  All quantifiers are greedy: a repetition tries the longest run first and then gives
  characters back one by one, \<open>?\<close> tries its pattern before it tries to go on without
  it, and an alternative tries its left side first. As in the language, \<open>?\<close> does not
  accept a match of its pattern that consumes nothing. A group records what its content
  consumed.
\<close>

definition run_length :: "bool \<Rightarrow> char_class \<Rightarrow> string \<Rightarrow> nat" where
  "run_length ignoreCase k s = length (takeWhile (class_matches ignoreCase k) s)"

definition at_word_boundary :: "string \<Rightarrow> string \<Rightarrow> bool" where
  "at_word_boundary before after =
     ((before \<noteq> [] \<and> isWordChar (last before)) \<noteq> (after \<noteq> [] \<and> isWordChar (hd after)))"

fun matches :: "bool \<Rightarrow> regex \<Rightarrow> mstate \<Rightarrow> mstate list" where
  "matches ic Empty st = [st]"
| "matches ic (Char p) (b, a, caps) =
     (case a of
        [] \<Rightarrow> []
      | c # cs \<Rightarrow> if char_matches ic p c then [(b @ [c], cs, caps)] else [])"
| "matches ic (Class k) (b, a, caps) =
     (case a of
        [] \<Rightarrow> []
      | c # cs \<Rightarrow> if class_matches ic k c then [(b @ [c], cs, caps)] else [])"
| "matches ic (Seq r1 r2) st = concat (map (matches ic r2) (matches ic r1 st))"
| "matches ic (Alt r1 r2) st = matches ic r1 st @ matches ic r2 st"
| "matches ic (Opt r) (b, a, caps) =
     filter (\<lambda>(b', a', caps'). length b' \<noteq> length b) (matches ic r (b, a, caps)) @ [(b, a, caps)]"
| "matches ic (Repeat k lo hi) (b, a, caps) =
     (let most = (case hi of None \<Rightarrow> run_length ic k a | Some h \<Rightarrow> min h (run_length ic k a))
      in map (\<lambda>n. (b @ take n a, drop n a, caps)) (rev [lo ..< Suc most]))"
| "matches ic (Group n r) (b, a, caps) =
     map (\<lambda>(b', a', caps'). (b', a', caps'[n - 1 := Some (drop (length b) b')]))
         (matches ic r (b, a, caps))"
| "matches ic LineStart (b, a, caps) = (if b = [] then [(b, a, caps)] else [])"
| "matches ic LineEnd (b, a, caps) = (if a = [] then [(b, a, caps)] else [])"
| "matches ic WordBoundary (b, a, caps) =
     (if at_word_boundary b a then [(b, a, caps)] else [])"
| "matches ic (NotFollowedBy r) st = (if matches ic r st = [] then [st] else [])"

text \<open>The number of capturing groups of a pattern.\<close>

fun group_count :: "regex \<Rightarrow> nat" where
  "group_count (Seq r1 r2) = max (group_count r1) (group_count r2)"
| "group_count (Alt r1 r2) = max (group_count r1) (group_count r2)"
| "group_count (Opt r) = group_count r"
| "group_count (Group n r) = max n (group_count r)"
| "group_count (NotFollowedBy r) = group_count r"
| "group_count _ = 0"

text \<open>
  A \<open>RegExp\<close> object: its pattern and its \<open>i\<close> flag. The result of a successful
  \<open>exec\<close>: \<open>m.index\<close>, \<open>m[0]\<close>, the groups \<open>m.slice(1)\<close>, and the position at which
  the match ends (the next \<open>lastIndex\<close> of a global expression).
\<close>

datatype regexp = RegExp regex bool

record match_result =
  match_index :: nat
  matched :: string
  groups :: "string option list"
  endIndex :: nat

definition match_at :: "regexp \<Rightarrow> string \<Rightarrow> nat \<Rightarrow> match_result option" where
  "match_at re s i =
     (case re of RegExp r ic \<Rightarrow>
        (case matches ic r (take i s, drop i s, replicate (group_count r) None) of
           [] \<Rightarrow> None
         | (b, a, caps) # _ \<Rightarrow>
             Some \<lparr>match_index = i, matched = drop i b, groups = caps, endIndex = length b\<rparr>))"

fun first_match :: "regexp \<Rightarrow> string \<Rightarrow> nat list \<Rightarrow> match_result option" where
  "first_match re s [] = None"
| "first_match re s (i # is) =
     (case match_at re s i of None \<Rightarrow> first_match re s is | Some m \<Rightarrow> Some m)"

text \<open>
  \<open>exec_from re s lastIndex\<close>: the search of \<open>RegExp.prototype.exec\<close>, which tries
  the start positions from \<open>lastIndex\<close> to the end of the input in turn. An expression
  without the \<open>g\<close> flag always searches from 0.
\<close>

definition exec_from :: "regexp \<Rightarrow> string \<Rightarrow> nat \<Rightarrow> match_result option" where
  "exec_from re s lastIndex = first_match re s [lastIndex ..< Suc (length s)]"

definition exec :: "regexp \<Rightarrow> string \<Rightarrow> match_result option" where
  "exec re s = exec_from re s 0"

definition test :: "regexp \<Rightarrow> string \<Rightarrow> bool" where
  "test re s = (exec re s \<noteq> None)"

text \<open>A sequence of patterns, and a literal string as a pattern.\<close>

fun cat :: "regex list \<Rightarrow> regex" where
  "cat [] = Empty"
| "cat [r] = r"
| "cat (r # rs) = Seq r (cat rs)"

definition lit :: "string \<Rightarrow> regex" where
  "lit s = cat (map Char s)"

section \<open>The data model (types.ts)\<close>

text \<open>
  \<open>HeaderType\<close> and \<open>SimpleHeader\<close> are the two variants of \<open>Header\<close>; the model
  keeps them apart by a constructor, where the code looks for the properties \<open>type\<close>,
  \<open>subject\<close> and \<open>value\<close>.
\<close>

record headerType =
  type :: string
  scope :: "string nullable optional"
  subject :: string

datatype header = HeaderType headerType | SimpleHeader string

record mention =
  index :: nat
  handle :: string
  mention :: string

datatype string_or_boolean = Str string | Bool bool

text \<open>A value of type \<open>any\<close>, for the properties a caller adds to a commit.\<close>

datatype any = AnyString string | AnyNumber int | AnyBoolean bool | AnyNull | AnyUndefined

text \<open>
  \<open>Commit\<close>: the declared properties, and \<open>extra\<close> for the index signature
  \<open>[key: string]: any\<close>: the keys other than the declared ones with their values, in
  the order of the object's properties.
\<close>

record commit =
  header :: header
  body :: "string nullable optional"
  footer :: "string nullable optional"
  increment :: "string_or_boolean optional"
  isBreaking :: "bool optional"
  mentions :: "mention list optional"
  extra :: "(string \<times> any) list"

text \<open>\<open>CommitResult\<close>: \<open>{ error?, value? }\<close>.\<close>

record 'a commitResult =
  error_of :: "js_error option"
  value_of :: "'a option"

text \<open>
  \<open>options.headerRegex\<close> replaces the header pattern. The engine that runs it is not
  part of the library, so a caller's expression is given by what it computes: for an input,
  the four groups \<open>type, scope, bang, subject\<close> of its match, \<open>None\<close> when it does not
  match. The comment on \<open>stringToHeader\<close> asks for these four groups; the first and the
  last are strings in every match, the other two can be \<open>undefined\<close>. The expression has
  no \<open>g\<close> or \<open>y\<close> flag, so \<open>test\<close> and \<open>exec\<close> keep no position between calls. A
  pattern given as a string is compiled with or without the \<open>i\<close> flag, so it is a
  function of that flag; the empty string is a case of its own, being falsy.
\<close>

type_synonym header_groups = "string \<times> string option \<times> string option \<times> string"

datatype header_regex =
    EmptySource
  | RegexSource "bool \<Rightarrow> string \<Rightarrow> header_groups option"
  | RegexObject "string \<Rightarrow> header_groups option"

record options =
  headerRegex :: "header_regex optional"
  caseSensitive :: "bool optional"
  normalize :: "bool optional"

text \<open>\<open>{ key: d, ...options }\<close>: the default stands only where the key is missing.\<close>

fun with_default :: "'a \<Rightarrow> 'a optional \<Rightarrow> 'a optional" where
  "with_default d Absent = Present d"
| "with_default d v = v"

fun truthy :: "bool optional \<Rightarrow> bool" where
  "truthy (Present b) = b"
| "truthy _ = False"

text \<open>\<open>x ?? ""\<close> on an optional string property.\<close>

fun or_empty :: "string nullable optional \<Rightarrow> string" where
  "or_empty (Present (Value s)) = s"
| "or_empty _ = []"

section \<open>utils.ts\<close>

definition errorMsg :: string where
  "errorMsg =
     ''parse-commit-message: expect '' @ [CHR 0x60] @ ''commit'' @ [CHR 0x60] @ '' to follow:''
     @ [CHR 0x0A] @ ''<type>[optional scope]: <description>'' @ [CHR 0x0A, CHR 0x0A]
     @ ''[optional body]'' @ [CHR 0x0A, CHR 0x0A] @ ''[optional footer]''"

definition isNonEmptyString :: "string \<Rightarrow> bool" where
  "isNonEmptyString str = (length str > 0)"

fun isHeaderType :: "header \<Rightarrow> bool" where
  "isHeaderType (HeaderType h) = True"
| "isHeaderType (SimpleHeader v) = False"

text \<open>The default pattern \<open>/^(\w+)(?:\((.+)\))?(!)?: (.+)/\<close>.\<close>

definition headerPattern :: regex where
  "headerPattern =
     cat [LineStart,
          Group 1 (Repeat Word 1 None),
          Opt (cat [Char CHR ''('', Group 2 (Repeat Dot 1 None), Char CHR '')'']),
          Opt (Group 3 (Char CHR ''!'')),
          Char CHR '':'', Char CHR '' '',
          Group 4 (Repeat Dot 1 None)]"

definition defaultRegex :: "bool \<Rightarrow> regexp" where
  "defaultRegex caseSens = RegExp headerPattern (\<not> caseSens)"

text \<open>
  The groups of a match of the default pattern. Groups 1 and 4 are set in every match
  (lemma \<open>defaultRegex_groups\<close> below), so the last case does not occur.
\<close>

definition default_groups :: "bool \<Rightarrow> string \<Rightarrow> header_groups option" where
  "default_groups caseSens val =
     (case exec (defaultRegex caseSens) val of
        None \<Rightarrow> None
      | Some m \<Rightarrow>
          (case groups m of
             [Some t, sc, bang, Some subj] \<Rightarrow> Some (t, sc, bang, subj)
           | _ \<Rightarrow> None))"

definition stringToHeader :: "string \<Rightarrow> options \<Rightarrow> js_error + headerType" where
  "stringToHeader val opts0 =
     (let caseSens = truthy (with_default False (caseSensitive opts0));
          regex = (case headerRegex opts0 of
                     Present (RegexSource compile) \<Rightarrow> compile (\<not> caseSens)
                   | Present (RegexObject re) \<Rightarrow> re
                   | _ \<Rightarrow> default_groups caseSens)
      in if regex val = None then Inl (TypeError errorMsg)
         else (case regex val of
                 None \<Rightarrow> Inl (Error errorMsg)
               | Some (t, sc, bang, subj) \<Rightarrow>
                   Inr \<lparr>type = t @ (case bang of None \<Rightarrow> [] | Some b \<Rightarrow> b),
                        scope = Present (case sc of None \<Rightarrow> Null | Some s \<Rightarrow> Value s),
                        subject = subj\<rparr>))"

definition normalizeCommit :: "commit \<Rightarrow> options \<Rightarrow> js_error + commit" where
  "normalizeCommit c opts =
     (case header c of
        SimpleHeader v \<Rightarrow>
          (case stringToHeader v opts of
             Inl e \<Rightarrow> Inl e
           | Inr h \<Rightarrow> Inr (c\<lparr>header := HeaderType h\<rparr>))
      | HeaderType h \<Rightarrow> Inr c)"

text \<open>\<open>/^BREAKING\s+CHANGES?:\s+/\<close> and \<open>/break|breaking|major/i\<close>.\<close>

definition breakingChangeRegex :: regexp where
  "breakingChangeRegex =
     RegExp (cat [LineStart, lit ''BREAKING'', Repeat Space 1 None, lit ''CHANGE'',
                  Opt (Char CHR ''S''), Char CHR '':'', Repeat Space 1 None]) False"

definition breakingTypeRegex :: regexp where
  "breakingTypeRegex =
     RegExp (Alt (lit ''break'') (Alt (lit ''breaking'') (lit ''major''))) True"

definition isBreakingChange :: "commit \<Rightarrow> js_error + bool" where
  "isBreakingChange c =
     (case header c of
        SimpleHeader v \<Rightarrow> Inl (Error (''Unsupported header in commit: '' @ v))
      | HeaderType h \<Rightarrow>
          Inr (endsWith (type h) ''!''
               \<or> test breakingTypeRegex (type h)
               \<or> test breakingChangeRegex (subject h)
               \<or> test breakingChangeRegex (or_empty (body c))
               \<or> test breakingChangeRegex (or_empty (footer c))))"

section \<open>header.ts\<close>

definition parseHeader :: "string \<Rightarrow> options \<Rightarrow> js_error + headerType" where
  "parseHeader hd_text opts =
     (if \<not> isNonEmptyString hd_text
      then Inl (TypeError (''expect '' @ [CHR 0x60] @ ''header'' @ [CHR 0x60] @ '' to be non empty string''))
      else stringToHeader (trim hd_text) opts)"

text \<open>
  \<open>checkHeader\<close>. The scope is valid when the key is missing or holds \<open>null\<close>;
  otherwise it has to be a non-empty string, which \<open>undefined\<close> is not.
\<close>

definition checkHeader :: "header \<Rightarrow> js_error + headerType" where
  "checkHeader hdr =
     (case hdr of
        SimpleHeader v \<Rightarrow> Inl (TypeError (''header should be of type '' @ [CHR 0x27] @ ''HeaderType'' @ [CHR 0x27]))
      | HeaderType h \<Rightarrow>
          if \<not> isNonEmptyString (type h)
          then Inl (TypeError ''header.type should be non empty string'')
          else if \<not> isNonEmptyString (subject h)
          then Inl (TypeError ''header.subject should be non empty string'')
          else
            let isValidScope =
                  (case scope h of
                     Absent \<Rightarrow> True
                   | Present Null \<Rightarrow> True
                   | Undefined \<Rightarrow> False
                   | Present (Value s) \<Rightarrow> isNonEmptyString s)
            in if \<not> isValidScope
               then Inl (TypeError ''commit.header.scope should be non empty string when given'')
               else Inr h)"

definition validateHeader :: "header \<Rightarrow> headerType commitResult" where
  "validateHeader hdr =
     (case checkHeader hdr of
        Inr v \<Rightarrow> \<lparr>error_of = None, value_of = Some v\<rparr>
      | Inl err \<Rightarrow> \<lparr>error_of = Some err, value_of = None\<rparr>)"

text \<open>A scope is truthy when it is a non-empty string.\<close>

fun scope_text :: "string nullable optional \<Rightarrow> string" where
  "scope_text (Present (Value s)) = (if s = [] then [] else ''('' @ s @ '')'')"
| "scope_text _ = []"

definition stringifyHeader :: "header \<Rightarrow> js_error + string" where
  "stringifyHeader hdr =
     (let res = validateHeader hdr in
      case error_of res of
        Some err \<Rightarrow> Inl err
      | None \<Rightarrow>
          (case value_of res of
             None \<Rightarrow> Inl (TypeError ''HeaderType is undefined'')
           | Some h \<Rightarrow> Inr (trim (type h @ scope_text (scope h) @ '': '' @ subject h))))"

section \<open>commit.ts\<close>

text \<open>
  \<open>const [body = null, footer = null] = commit.split("\n\n").slice(1)\<close>: the element
  at a position of the array, \<open>null\<close> when the array is shorter.
\<close>

fun element_or_null :: "string list \<Rightarrow> nat \<Rightarrow> string nullable" where
  "element_or_null [] n = Null"
| "element_or_null (x # xs) 0 = Value x"
| "element_or_null (x # xs) (Suc n) = element_or_null xs n"

text \<open>\<open>x?.trim()\<close>: \<open>undefined\<close> when \<open>x\<close> is \<open>null\<close>.\<close>

fun optional_trim :: "string nullable \<Rightarrow> string nullable optional" where
  "optional_trim Null = Undefined"
| "optional_trim (Value s) = Present (Value (trim s))"

definition parseCommit :: "string \<Rightarrow> options \<Rightarrow> js_error + commit" where
  "parseCommit text opts =
     (if \<not> isNonEmptyString text
      then Inl (TypeError (''expect '' @ [CHR 0x60] @ ''commit'' @ [CHR 0x60] @ '' to be non empty string''))
      else
        (case parseHeader text opts of
           Inl e \<Rightarrow> Inl e
         | Inr h \<Rightarrow>
             let rest = tl (split_blank text);
                 body0 = element_or_null rest 0;
                 footer0 = element_or_null rest 1
             in Inr \<lparr>header = HeaderType h,
                     body = optional_trim body0,
                     footer = optional_trim footer0,
                     increment = Absent, isBreaking = Absent, mentions = Absent,
                     extra = []\<rparr>))"

text \<open>
  \<open>checkCommit\<close>. \<open>body\<close> and \<open>footer\<close> have the type \<open>string | null\<close> when they are
  given, so the two checks of their type cannot fail here. In
  \<open>{ body: null, footer: null, ...commit, header: headerObj }\<close> the spread overwrites
  the two defaults with every property the commit has, also one that holds
  \<open>undefined\<close>.
\<close>

definition checkCommit :: "commit \<Rightarrow> js_error + commit" where
  "checkCommit c =
     (let res = validateHeader (header c) in
      case error_of res of
        Some err \<Rightarrow> Inl err
      | None \<Rightarrow>
          (case value_of res of
             None \<Rightarrow> Inl (TypeError ''Header in commit is undefined'')
           | Some headerObj \<Rightarrow>
               Inr (c\<lparr>body := with_default Null (body c),
                       footer := with_default Null (footer c),
                       header := HeaderType headerObj\<rparr>)))"

definition validateCommit :: "commit \<Rightarrow> commit commitResult" where
  "validateCommit c =
     (case checkCommit c of
        Inr v \<Rightarrow> \<lparr>error_of = None, value_of = Some v\<rparr>
      | Inl err \<Rightarrow> \<lparr>error_of = Some err, value_of = None\<rparr>)"

section \<open>plugins/increment.ts\<close>

text \<open>\<open>/fix|bugfix|patch/i\<close> and \<open>/feat|feature|minor/i\<close>.\<close>

definition patchRegex :: regexp where
  "patchRegex = RegExp (Alt (lit ''fix'') (Alt (lit ''bugfix'') (lit ''patch''))) True"

definition minorRegex :: regexp where
  "minorRegex = RegExp (Alt (lit ''feat'') (Alt (lit ''feature'') (lit ''minor''))) True"

text \<open>\<open>opts.normalize ? normalizeCommit(commit, opts) : commit\<close>, with \<open>normalize: true\<close> as the default.\<close>

definition normalized :: "commit \<Rightarrow> options \<Rightarrow> js_error + commit" where
  "normalized c opts0 =
     (let opts = opts0\<lparr>normalize := with_default True (normalize opts0)\<rparr>
      in if truthy (normalize opts) then normalizeCommit c opts else Inr c)"

definition classify :: "string \<Rightarrow> bool \<Rightarrow> string" where
  "classify ty breaking =
     (let i0 = [];
          i1 = (if test patchRegex ty then ''patch'' else i0);
          i2 = (if test minorRegex ty then ''minor'' else i1);
          i3 = (if breaking then ''major'' else i2)
      in i3)"

definition incrementPlugin :: "commit \<Rightarrow> options \<Rightarrow> js_error + commit" where
  "incrementPlugin c opts =
     (case normalized c opts of
        Inl e \<Rightarrow> Inl e
      | Inr cmt \<Rightarrow>
          (case isBreakingChange cmt of
             Inl e \<Rightarrow> Inl e
           | Inr breaking \<Rightarrow>
               (case header cmt of
                  SimpleHeader v \<Rightarrow> Inl (TypeError (''Header should be of type '' @ [CHR 0x27] @ ''HeaderType'' @ [CHR 0x27]))
                | HeaderType h \<Rightarrow>
                    Inr (c\<lparr>increment := Present (Str (classify (type h) breaking))\<rparr>))))"

section \<open>plugins/mention.ts\<close>

text \<open>
  \<open>mentionsRegex(dot)\<close>:
  \<open>/(?:^|[^a-zA-Z0-9_@!@#$%&*])(?:(?:@|@)(?!\/))([a-zA-Z0-9/_]{1,15})(?:\b(?!@|@)|$)/\<close>,
  with \<open>.\<close> added to the class of the name when \<open>dot\<close> is set. In the source the
  second \<open>@\<close> of each pair is the full-width commercial at (code unit 0xFF20); no string of
  the model holds it, so its alternatives never match and are left out.
\<close>

definition alnum :: "(char \<times> char) list" where
  "alnum = [(CHR ''a'', CHR ''z''), (CHR ''A'', CHR ''Z''), (CHR ''0'', CHR ''9'')]"

definition mentionsRegex :: "bool \<Rightarrow> regex" where
  "mentionsRegex dot =
     cat [Alt LineStart (Class (NoneOf ''_!@#$%&*'' alnum)),
          cat [Char CHR ''@'', NotFollowedBy (Char CHR ''/'')],
          Group 1 (Repeat (OneOf (if dot then ''/_.'' else ''/_'') alnum) 1 (Some 15)),
          Alt (cat [WordBoundary, NotFollowedBy (Char CHR ''@'')]) LineEnd]"

section \<open>Properties of the matcher\<close>

text \<open>
  A pattern only moves forward: every state it stops in has consumed a prefix of the
  remaining input, of at least the pattern's minimal width. These facts bound the
  \<open>lastIndex\<close> of a global expression, which is what makes the loop of
  \<open>getMentions\<close> end.
\<close>

lemma matches_extends:
  "(b', a', c') \<in> set (matches ic r (b, a, c)) \<Longrightarrow> \<exists>x. b' = b @ x \<and> a = x @ a'"
proof (induction r arbitrary: b a c b' a' c')
  case (Seq r1 r2)
  then obtain b1 a1 c1 where m: "(b1, a1, c1) \<in> set (matches ic r1 (b, a, c))"
    and f: "(b', a', c') \<in> set (matches ic r2 (b1, a1, c1))"
    by auto
  from Seq.IH(1)[OF m] obtain x where x: "b1 = b @ x" "a = x @ a1" by blast
  from Seq.IH(2)[OF f] obtain y where y: "b' = b1 @ y" "a1 = y @ a'" by blast
  show ?case using x y by auto
next
  case (Repeat k lo hi)
  then show ?case by (auto simp: Let_def intro: exI[where x="take n a" for n])
next
  case (Group n r)
  then show ?case by fastforce
qed (auto split: list.splits if_splits)

fun min_width :: "regex \<Rightarrow> nat" where
  "min_width (Char p) = 1"
| "min_width (Class k) = 1"
| "min_width (Seq r1 r2) = min_width r1 + min_width r2"
| "min_width (Alt r1 r2) = min (min_width r1) (min_width r2)"
| "min_width (Repeat k lo hi) = lo"
| "min_width (Group n r) = min_width r"
| "min_width _ = 0"

lemma matches_min_width:
  "(b', a', c') \<in> set (matches ic r (b, a, c)) \<Longrightarrow> length b + min_width r \<le> length b'"
proof (induction r arbitrary: b a c b' a' c')
  case (Seq r1 r2)
  then obtain b1 a1 c1 where m: "(b1, a1, c1) \<in> set (matches ic r1 (b, a, c))"
    and f: "(b', a', c') \<in> set (matches ic r2 (b1, a1, c1))"
    by auto
  from Seq.IH(1)[OF m] Seq.IH(2)[OF f] show ?case by simp
next
  case (Repeat k lo hi)
  then show ?case
    by (auto simp: Let_def run_length_def split: option.splits
             dest: order_trans[OF _ length_takeWhile_le])
next
  case (Group n r)
  then show ?case by fastforce
next
  case (Opt r)
  then show ?case using matches_extends by fastforce
next
  case (NotFollowedBy r)
  then show ?case by (auto split: if_splits)
next
  case (Alt r1 r2)
  from Alt.prems consider "(b', a', c') \<in> set (matches ic r1 (b, a, c))"
    | "(b', a', c') \<in> set (matches ic r2 (b, a, c))" by auto
  then show ?case
  proof cases
    case 1
    from Alt.IH(1)[OF 1] show ?thesis by simp
  next
    case 2
    from Alt.IH(2)[OF 2] show ?thesis by simp
  qed
qed (auto split: list.splits if_splits)

lemma first_match_Some:
  "first_match re s is = Some m \<Longrightarrow> \<exists>i \<in> set is. match_at re s i = Some m"
  by (induction "is") (auto split: option.splits)

lemma match_at_bounds:
  assumes "match_at (RegExp r ic) s i = Some m" "i \<le> length s"
  shows "i + min_width r \<le> endIndex m \<and> endIndex m \<le> length s \<and> match_index m = i"
proof -
  from assms(1) obtain b a c rest where
    eq: "matches ic r (take i s, drop i s, replicate (group_count r) None) = (b, a, c) # rest"
    and m: "endIndex m = length b" "match_index m = i"
    by (auto simp: match_at_def split: list.splits)
  from eq have
    hd: "(b, a, c) \<in> set (matches ic r (take i s, drop i s, replicate (group_count r) None))"
    by simp
  from matches_extends[OF hd] obtain x where "b = take i s @ x" "drop i s = x @ a" by blast
  then have "length b \<le> length s"
    by (metis append.assoc append_take_drop_id le_add1 length_append)
  moreover from matches_min_width[OF hd] assms(2) have "i + min_width r \<le> length b" by simp
  ultimately show ?thesis using m by simp
qed

lemma exec_from_bounds:
  assumes "exec_from (RegExp r ic) s li = Some m"
  shows "li + min_width r \<le> endIndex m \<and> endIndex m \<le> length s"
proof -
  from first_match_Some[OF assms[unfolded exec_from_def]]
  obtain i where i: "li \<le> i" "i \<le> length s" "match_at (RegExp r ic) s i = Some m" by auto
  from match_at_bounds[OF i(3) i(2)] i(1) show ?thesis by simp
qed

lemma mentionsRegex_width: "min_width (mentionsRegex dot) = 2"
  by (simp add: mentionsRegex_def)

section \<open>plugins/mention.ts, continued\<close>

text \<open>
  \<open>m[1]\<close>, the name without the sigil. Group 1 is set in every match of the pattern
  (lemma \<open>mentionsRegex_groups\<close> below), so the second case does not occur.
\<close>

definition group1 :: "match_result \<Rightarrow> string" where
  "group1 m = (case groups m of Some g # _ \<Rightarrow> g | _ \<Rightarrow> [])"

text \<open>
  The loop \<open>while ((m = regex.exec(str))) result.push(...)\<close> of \<open>getMentions\<close>, on
  the expression with the \<open>g\<close> flag: each \<open>exec\<close> searches from \<open>lastIndex\<close> and
  leaves it at the end of its match.
\<close>

function collect :: "bool \<Rightarrow> string \<Rightarrow> nat \<Rightarrow> mention list" where
  "collect dot str lastIndex =
     (case exec_from (RegExp (mentionsRegex dot) False) str lastIndex of
        None \<Rightarrow> []
      | Some m \<Rightarrow>
          \<lparr>index = match_index m, handle = trim (matched m), mention = group1 m\<rparr>
          # collect dot str (endIndex m))"
  by pat_completeness auto

termination collect
proof (relation "measure (\<lambda>(dot, str, lastIndex). Suc (length str) - lastIndex)")
  show "wf (measure (\<lambda>(dot, str, lastIndex). Suc (length str) - lastIndex))" by simp
next
  fix dot str lastIndex m
  assume "exec_from (RegExp (mentionsRegex dot) False) str lastIndex = Some m"
  from exec_from_bounds[OF this]
  have "lastIndex + 2 \<le> endIndex m" "endIndex m \<le> length str"
    by (simp_all add: mentionsRegex_width)
  then show "((dot, str, endIndex m), (dot, str, lastIndex))
      \<in> measure (\<lambda>(dot, str, lastIndex). Suc (length str) - lastIndex)"
    by simp
qed

declare collect.simps [simp del]

definition getMentions :: "string \<Rightarrow> bool \<Rightarrow> mention list" where
  "getMentions str dot = collect dot str 0"

definition mentionsPlugin :: "commit \<Rightarrow> options \<Rightarrow> js_error + commit" where
  "mentionsPlugin c opts =
     (case normalized c opts of
        Inl e \<Rightarrow> Inl e
      | Inr cmt \<Rightarrow>
          (case header cmt of
             SimpleHeader v \<Rightarrow>
               Inl (TypeError (''mentionsPlugin: commit.header is not of type ''
                               @ [CHR 0x27] @ ''HeaderTye'' @ [CHR 0x27]))
           | HeaderType h \<Rightarrow>
               let commitMentions =
                     getMentions (subject h) False
                     @ getMentions (or_empty (body cmt)) False
                     @ getMentions (or_empty (footer cmt)) False
               in Inr (c\<lparr>mentions := Present commitMentions\<rparr>)))"

section \<open>index.ts\<close>

type_synonym pluginFunction = "commit \<Rightarrow> options \<Rightarrow> js_error + commit"

datatype commit_like = CommitString string | CommitObject commit

datatype commits_input = Single commit_like | Several "commit_like list"

text \<open>
  \<open>Object.assign(draft, res)\<close>: every property of \<open>res\<close> is written over the
  accumulator's, the others stay.
\<close>

fun overwrite :: "'a optional \<Rightarrow> 'a optional \<Rightarrow> 'a optional" where
  "overwrite old Absent = old"
| "overwrite old new = new"

definition assign :: "commit \<Rightarrow> commit \<Rightarrow> commit" where
  "assign acc res =
     \<lparr>header = header res,
      body = overwrite (body acc) (body res),
      footer = overwrite (footer acc) (footer res),
      increment = overwrite (increment acc) (increment res),
      isBreaking = overwrite (isBreaking acc) (isBreaking res),
      mentions = overwrite (mentions acc) (mentions res),
      extra = fold (\<lambda>(k, v). AList.update k v) (extra res) (extra acc)\<rparr>"

fun reduce_plugins :: "pluginFunction list \<Rightarrow> options \<Rightarrow> commit \<Rightarrow> js_error + commit" where
  "reduce_plugins [] opts acc = Inr acc"
| "reduce_plugins (pluginFn # rest) opts acc =
     (case pluginFn acc opts of
        Inl e \<Rightarrow> Inl e
      | Inr res \<Rightarrow> reduce_plugins rest opts (assign acc res))"

text \<open>
  The object that \<open>extendCommitCb\<close> starts from: a string becomes
  \<open>{ header: { value: string } }\<close>, an object is taken as it is.
\<close>

definition commitObject :: "commit_like \<Rightarrow> commit" where
  "commitObject singleCommitLike =
     (case singleCommitLike of
        CommitString s \<Rightarrow>
          \<lparr>header = SimpleHeader s, body = Absent, footer = Absent, increment = Absent,
           isBreaking = Absent, mentions = Absent, extra = []\<rparr>
      | CommitObject c \<Rightarrow> c)"

definition extendCommitCb :: "pluginFunction list \<Rightarrow> options \<Rightarrow> commit_like \<Rightarrow> js_error + commit" where
  "extendCommitCb plugins opts singleCommitLike =
     reduce_plugins plugins opts (commitObject singleCommitLike)"

fun extend_each :: "pluginFunction list \<Rightarrow> options \<Rightarrow> commit_like list \<Rightarrow> js_error + commit list" where
  "extend_each plugins opts [] = Inr []"
| "extend_each plugins opts (c # cs) =
     (case extendCommitCb plugins opts c of
        Inl e \<Rightarrow> Inl e
      | Inr x \<Rightarrow>
          (case extend_each plugins opts cs of
             Inl e \<Rightarrow> Inl e
           | Inr xs \<Rightarrow> Inr (x # xs)))"

definition applyPlugins :: "pluginFunction list \<Rightarrow> commits_input \<Rightarrow> options \<Rightarrow> js_error + commit list" where
  "applyPlugins plugins commits opts0 =
     (let opts = opts0\<lparr>caseSensitive := with_default False (caseSensitive opts0),
                      normalize := with_default True (normalize opts0)\<rparr>
      in case commits of
           Several cs \<Rightarrow> extend_each plugins opts cs
         | Single c \<Rightarrow>
             (case extendCommitCb plugins opts c of
                Inl e \<Rightarrow> Inl e
              | Inr x \<Rightarrow> Inr [x]))"

section \<open>Notions used to state the properties\<close>

text \<open>No option given, and a commit that has only its header.\<close>

definition defaults :: options where
  "defaults = \<lparr>headerRegex = Absent, caseSensitive = Absent, normalize = Absent\<rparr>"

definition plain :: "header \<Rightarrow> commit" where
  "plain h = \<lparr>header = h, body = Absent, footer = Absent, increment = Absent,
              isBreaking = Absent, mentions = Absent, extra = []\<rparr>"

text \<open>The options leave the header pattern alone: \<open>headerRegex\<close> is missing or falsy.\<close>

definition default_grammar :: "options \<Rightarrow> bool" where
  "default_grammar opts =
     (case headerRegex opts of
        Present (RegexSource compile) \<Rightarrow> False
      | Present (RegexObject re) \<Rightarrow> False
      | _ \<Rightarrow> True)"

text \<open>The text up to its first line terminator.\<close>

definition first_line :: "string \<Rightarrow> string" where
  "first_line s = takeWhile (\<lambda>c. \<not> isLineTerminator c) s"

text \<open>The text before its first \<open>"\n\n"\<close>, all of it when there is none.\<close>

fun before_blank_line :: "string \<Rightarrow> string" where
  "before_blank_line (c # d # cs) =
     (if c = CHR 0x0A \<and> d = CHR 0x0A then [] else c # before_blank_line (d # cs))"
| "before_blank_line cs = cs"

text \<open>
  The lower-case form of an ASCII letter, and what it is for a pattern word to match
  somewhere in a string with the case ignored: the word occurs in the string up to the
  case of its letters.
\<close>

definition lower :: "char \<Rightarrow> char" where
  "lower c = (if CHR ''A'' \<le> c \<and> c \<le> CHR ''Z'' then char_of (of_char c + (32::nat)) else c)"

definition occurs_ignoring_case :: "string \<Rightarrow> string \<Rightarrow> bool" where
  "occurs_ignoring_case p s =
     (\<exists>before w after. s = before @ w @ after \<and> map lower w = map lower p)"

section \<open>Case folding and line terminators\<close>

text \<open>
  The \<open>i\<close> flag changes nothing for a pattern character that is not a letter, and a
  line terminator is matched neither by \<open>.\<close> nor by \<open>\w\<close>, with or without the flag.
\<close>

lemma of_char_swapCase:
  "of_char (swapCase c) =
     (let n = (of_char c :: nat) in
      if (97 \<le> n \<and> n \<le> 122) \<or> (224 \<le> n \<and> n \<le> 254 \<and> n \<noteq> 247) then n - 32
      else if (65 \<le> n \<and> n \<le> 90) \<or> (192 \<le> n \<and> n \<le> 222 \<and> n \<noteq> 215) then n + 32
      else n)"
  by (auto simp: swapCase_def Let_def of_char_of)

lemma swapCase_uncased:
  assumes "(of_char (swapCase c) :: nat) < 65"
  shows "swapCase c = c"
proof -
  from assms have "(of_char (swapCase c) :: nat) = of_char c"
    by (auto simp: of_char_swapCase Let_def split: if_splits)
  then show ?thesis by (metis of_char_eq_iff)
qed

lemma char_matches_uncased:
  assumes "(of_char p :: nat) < 65"
  shows "char_matches ic p c = (c = p)"
proof -
  have "c = p" if "swapCase c = p"
    using swapCase_uncased[of c] that assms by simp
  then show ?thesis by (auto simp: char_matches_def)
qed

lemma swapCase_line_terminator:
  "isLineTerminator c \<Longrightarrow> swapCase c = c"
  by (auto simp: isLineTerminator_def swapCase_def)

lemma isLineTerminator_swapCase:
  "isLineTerminator (swapCase c) = isLineTerminator c"
proof
  assume "isLineTerminator (swapCase c)"
  then have "(of_char (swapCase c) :: nat) < 65" by (auto simp: isLineTerminator_def)
  from swapCase_uncased[OF this] \<open>isLineTerminator (swapCase c)\<close> show "isLineTerminator c" by simp
next
  assume "isLineTerminator c"
  then show "isLineTerminator (swapCase c)" by (simp add: swapCase_line_terminator)
qed

lemma class_matches_Dot: "class_matches ic Dot c = (\<not> isLineTerminator c)"
  by (auto simp: class_matches_def isLineTerminator_swapCase)

lemma class_matches_Word_line: "isLineTerminator c \<Longrightarrow> \<not> class_matches ic Word c"
  by (auto simp: class_matches_def swapCase_line_terminator isLineTerminator_def isWordChar_def less_eq_char_def)

lemma class_matches_Dot_fun: "class_matches ic Dot = (\<lambda>c. \<not> isLineTerminator c)"
  by (rule ext) (simp add: class_matches_Dot)

section \<open>Patterns that stay on a line\<close>

text \<open>
  A pattern built from \<open>^\<close>, characters other than line terminators, \<open>\w\<close>, \<open>.\<close>,
  sequence, alternative, \<open>?\<close>, repetition and groups cannot see past the end of the
  line it starts on: what follows the next line terminator changes no match.
\<close>

fun line_local :: "regex \<Rightarrow> bool" where
  "line_local Empty = True"
| "line_local (Char p) = (\<not> isLineTerminator p)"
| "line_local (Class k) = (k = Word \<or> k = Dot)"
| "line_local (Seq r1 r2) = (line_local r1 \<and> line_local r2)"
| "line_local (Alt r1 r2) = (line_local r1 \<and> line_local r2)"
| "line_local (Opt r) = line_local r"
| "line_local (Repeat k lo hi) = (k = Word \<or> k = Dot)"
| "line_local (Group n r) = line_local r"
| "line_local LineStart = True"
| "line_local LineEnd = False"
| "line_local WordBoundary = False"
| "line_local (NotFollowedBy r) = False"

definition line_break :: "string \<Rightarrow> bool" where
  "line_break t = (case t of [] \<Rightarrow> True | c # cs \<Rightarrow> isLineTerminator c)"

abbreviation extend :: "string \<Rightarrow> mstate \<Rightarrow> mstate" where
  "extend t \<equiv> (\<lambda>(b, a, c). (b, a @ t, c))"

lemma class_local:
  "isLineTerminator c \<Longrightarrow> class_matches ic Word c = False"
  "isLineTerminator c \<Longrightarrow> class_matches ic Dot c = False"
  by (auto simp: class_matches_Dot class_matches_Word_line)

lemma char_local:
  "\<not> isLineTerminator p \<Longrightarrow> isLineTerminator c \<Longrightarrow> \<not> char_matches ic p c"
  by (auto simp: char_matches_def swapCase_line_terminator)

lemma run_length_line:
  assumes "k = Word \<or> k = Dot" "line_break t"
  shows "run_length ic k (a @ t) = run_length ic k a"
proof (cases t)
  case Nil
  then show ?thesis by simp
next
  case (Cons c cs)
  with assms have "\<not> class_matches ic k c" by (auto simp: line_break_def class_local)
  then have "takeWhile (class_matches ic k) (a @ t) = takeWhile (class_matches ic k) a"
    using Cons by (induction a) auto
  then show ?thesis by (simp add: run_length_def)
qed

lemma run_length_le: "run_length ic k a \<le> length a"
  by (simp add: run_length_def length_takeWhile_le)

lemma matches_line_local:
  "line_local r \<Longrightarrow> line_break t \<Longrightarrow>
     matches ic r (b, a @ t, c) = map (extend t) (matches ic r (b, a, c))"
proof (induction r arbitrary: b a c)
  case (Char p)
  then show ?case
    by (cases a; cases t) (auto simp: line_break_def dest: char_local)
next
  case (Class k)
  then show ?case
    by (cases a; cases t) (auto simp: line_break_def class_local)
next
  case (Seq r1 r2)
  have "concat (map (matches ic r2) (map (extend t) xs))
      = map (extend t) (concat (map (matches ic r2) xs))" for xs
    using Seq.IH(2) Seq.prems by (induction xs) auto
  with Seq show ?case by simp
next
  case (Opt r)
  have "filter (\<lambda>(b', a', c'). length b' \<noteq> length b) (map (extend t) xs)
      = map (extend t) (filter (\<lambda>(b', a', c'). length b' \<noteq> length b) xs)" for xs
    by (induction xs) auto
  with Opt show ?case by simp
next
  case (Repeat k lo hi)
  let ?most = "case hi of None \<Rightarrow> run_length ic k a | Some h \<Rightarrow> min h (run_length ic k a)"
  from Repeat.prems have rl: "run_length ic k (a @ t) = run_length ic k a"
    by (intro run_length_line) auto
  have most: "?most \<le> length a" using run_length_le[of ic k a] by (auto split: option.splits)
  have "(b @ take n (a @ t), drop n (a @ t), c) = extend t (b @ take n a, drop n a, c)"
    if "n \<in> set (rev [lo ..< Suc ?most])" for n
    using that most by auto
  then have "map (\<lambda>n. (b @ take n (a @ t), drop n (a @ t), c)) (rev [lo ..< Suc ?most])
      = map (extend t) (map (\<lambda>n. (b @ take n a, drop n a, c)) (rev [lo ..< Suc ?most]))"
    unfolding map_map comp_def by (intro map_cong) auto
  then show ?case
    unfolding matches.simps Let_def rl .
next
  case (Group n r)
  have "map (\<lambda>(b', a', c'). (b', a', c'[n - 1 := Some (drop (length b) b')])) (map (extend t) xs)
      = map (extend t) (map (\<lambda>(b', a', c'). (b', a', c'[n - 1 := Some (drop (length b) b')])) xs)" for xs
    by (induction xs) auto
  with Group show ?case by simp
qed (auto simp: line_break_def)

section \<open>The states of a compound pattern\<close>

text \<open>
  Which states a compound pattern stops in, and which of them comes first. The first state
  of a sequence is the first state of its second part, started where the first part
  stopped.
\<close>

lemma Seq_head:
  assumes "matches ic (Seq r1 r2) st = y # ys"
  shows "\<exists>mid \<in> set (matches ic r1 st). \<exists>zs. matches ic r2 mid = y # zs"
proof -
  have "\<exists>x \<in> set xs. \<exists>zs. f x = y # zs" if "concat (map f xs) = y # ys" for f :: "mstate \<Rightarrow> mstate list" and xs
    using that
  proof (induction xs)
    case Nil
    then show ?case by simp
  next
    case (Cons x xs)
    then show ?case by (cases "f x") auto
  qed
  with assms show ?thesis by simp
qed

lemma in_Seq:
  "st' \<in> set (matches ic (Seq r1 r2) st)
     \<longleftrightarrow> (\<exists>mid \<in> set (matches ic r1 st). st' \<in> set (matches ic r2 mid))"
  by auto

lemma in_Group:
  "(b', a', c') \<in> set (matches ic (Group n r) (b, a, c))
     \<longleftrightarrow> (\<exists>c0. (b', a', c0) \<in> set (matches ic r (b, a, c))
              \<and> c' = c0[n - 1 := Some (drop (length b) b')])"
proof -
  have "(b', a', c') \<in> (\<lambda>(b', a', caps'). (b', a', caps'[n - 1 := Some (drop (length b) b')])) ` X
     \<longleftrightarrow> (\<exists>c0. (b', a', c0) \<in> X \<and> c' = c0[n - 1 := Some (drop (length b) b')])" for X
    by (auto simp: image_iff split: prod.splits) 
  then show ?thesis by simp
qed

lemma in_Repeat_plus:
  "(b', a', c') \<in> set (matches ic (Repeat k lo None) (b, a, c))
     \<longleftrightarrow> (\<exists>n. lo \<le> n \<and> n \<le> run_length ic k a
              \<and> b' = b @ take n a \<and> a' = drop n a \<and> c' = c)"
  by (auto simp: Let_def image_iff)

lemma in_Char:
  "(b', a', c') \<in> set (matches ic (Char p) (b, a, c))
     \<longleftrightarrow> (\<exists>x. char_matches ic p x \<and> a = x # a' \<and> b' = b @ [x] \<and> c' = c)"
  by (cases a) auto

lemma in_Opt:
  "(b', a', c') \<in> set (matches ic (Opt r) (b, a, c))
     \<longleftrightarrow> (b', a', c') = (b, a, c)
         \<or> ((b', a', c') \<in> set (matches ic r (b, a, c)) \<and> length b' \<noteq> length b)"
  by auto

lemma hd_Repeat_plus:
  assumes "matches ic (Repeat k lo None) (b, a, c) = y # ys"
  shows "lo \<le> run_length ic k a
     \<and> y = (b @ take (run_length ic k a) a, drop (run_length ic k a) a, c)"
proof (cases "lo \<le> run_length ic k a")
  case True
  then have "[lo ..< Suc (run_length ic k a)] = [lo ..< run_length ic k a] @ [run_length ic k a]"
    by simp
  with assms True show ?thesis by (simp add: Let_def del: upt_Suc)
next
  case False
  then have "[lo ..< Suc (run_length ic k a)] = []" by simp
  with assms show ?thesis by (simp add: Let_def del: upt_Suc)
qed

lemma hd_Group:
  assumes "matches ic (Group n r) (b, a, c) = y # ys"
  shows "\<exists>b' a' c0 zs. matches ic r (b, a, c) = (b', a', c0) # zs
           \<and> y = (b', a', c0[n - 1 := Some (drop (length b) b')])"
  using assms by (cases "matches ic r (b, a, c)") auto

lemma matches_LineStart_Seq:
  "matches ic (Seq LineStart r) ([], a, c) = matches ic r ([], a, c)"
  by simp

lemma run_length_takeWhile:
  "take (run_length ic k a) a = takeWhile (class_matches ic k) a"
  "drop (run_length ic k a) a = dropWhile (class_matches ic k) a"
  unfolding run_length_def
  by (rule takeWhile_eq_take[symmetric], rule dropWhile_eq_drop[symmetric])

text \<open>A pattern without groups leaves the captures as they are.\<close>

fun group_free :: "regex \<Rightarrow> bool" where
  "group_free (Seq r1 r2) = (group_free r1 \<and> group_free r2)"
| "group_free (Alt r1 r2) = (group_free r1 \<and> group_free r2)"
| "group_free (Opt r) = group_free r"
| "group_free (Group n r) = False"
| "group_free (NotFollowedBy r) = True"
| "group_free _ = True"

lemma group_free_captures:
  "group_free r \<Longrightarrow> (b', a', c') \<in> set (matches ic r (b, a, c)) \<Longrightarrow> c' = c"
proof (induction r arbitrary: b a c b' a' c')
  case (Seq r1 r2)
  then show ?case by (auto simp del: matches.simps simp: in_Seq) blast
next
  case (Repeat k lo hi)
  then show ?case by (auto simp: Let_def)
qed (auto split: list.splits if_splits)

lemma first_match_None:
  "(\<And>i. i \<in> set is \<Longrightarrow> match_at re s i = None) \<Longrightarrow> first_match re s is = None"
  by (induction "is") auto

lemma match_at_anchored:
  assumes "0 < i" "i \<le> length s"
  shows "match_at (RegExp (Seq LineStart r) ic) s i = None"
proof -
  from assms have "take i s \<noteq> []" by auto
  then show ?thesis by (simp add: match_at_def)
qed

lemma exec_anchored:
  "exec (RegExp (Seq LineStart r) ic) s = match_at (RegExp (Seq LineStart r) ic) s 0"
proof -
  have "first_match (RegExp (Seq LineStart r) ic) s [Suc 0 ..< Suc (length s)] = None"
    by (rule first_match_None) (auto intro: match_at_anchored)
  moreover have "[0 ..< Suc (length s)] = 0 # [Suc 0 ..< Suc (length s)]"
    by (simp add: upt_rec)
  ultimately show ?thesis
    by (simp add: exec_def exec_from_def split: option.splits del: upt_Suc)
qed

section \<open>The default header pattern\<close>

text \<open>
  The shape of the first match of the header pattern: the type, the scope in parentheses
  when there is one, the bang when there is one, a colon and a space, and the subject, which
  runs to the end of the line. Groups 1 and 4 are always set.
\<close>

lemma headerPattern_unfold:
  "headerPattern =
     Seq LineStart
      (Seq (Group 1 (Repeat Word 1 None))
        (Seq (Opt (Seq (Char CHR ''('') (Seq (Group 2 (Repeat Dot 1 None)) (Char CHR '')''))))
          (Seq (Opt (Group 3 (Char CHR ''!'')))
            (Seq (Char CHR '':'') (Seq (Char CHR '' '') (Group 4 (Repeat Dot 1 None)))))))"
  by (simp add: headerPattern_def)

lemma group_count_headerPattern: "group_count headerPattern = 4"
  by (simp add: headerPattern_def)

lemma header_shape:
  assumes "matches ic headerPattern ([], s, [None, None, None, None]) = (b, a, caps) # rest"
  shows "\<exists>t sc bg subj.
           caps = [Some t, sc, bg, Some subj]
         \<and> t \<noteq> [] \<and> subj \<noteq> [] \<and> sc \<noteq> Some [] \<and> (bg = None \<or> bg = Some ''!'')
         \<and> s = t @ (case sc of None \<Rightarrow> [] | Some x \<Rightarrow> ''('' @ x @ '')'')
                  @ (case bg of None \<Rightarrow> [] | Some x \<Rightarrow> x) @ '': '' @ subj @ a
         \<and> subj = first_line (subj @ a)"
proof -
  let ?N = "[None, None, None, None] :: string option list"
  let ?R6 = "Group 4 (Repeat Dot 1 None)"
  let ?R5 = "Seq (Char CHR '' '') ?R6"
  let ?R4 = "Seq (Char CHR '':'') ?R5"
  let ?R3 = "Seq (Opt (Group 3 (Char CHR ''!''))) ?R4"
  let ?O2 = "Opt (Seq (Char CHR ''('') (Seq (Group 2 (Repeat Dot 1 None)) (Char CHR '')'')))"
  let ?R2 = "Seq ?O2 ?R3"
  let ?R1 = "Seq (Group 1 (Repeat Word 1 None)) ?R2"
  have cm [simp]: "char_matches ic CHR ''('' x = (x = CHR ''('')"
    "char_matches ic CHR '')'' x = (x = CHR '')'')"
    "char_matches ic CHR ''!'' x = (x = CHR ''!'')"
    "char_matches ic CHR '':'' x = (x = CHR '':'')"
    "char_matches ic CHR '' '' x = (x = CHR '' '')" for x
    by (simp_all add: char_matches_uncased)
  from assms have "matches ic (Seq LineStart ?R1) ([], s, ?N) = (b, a, caps) # rest"
    by (simp only: headerPattern_unfold)
  then have "matches ic ?R1 ([], s, ?N) = (b, a, caps) # rest"
    by (simp only: matches_LineStart_Seq)
  from Seq_head[OF this] obtain t a1 c1 z1 where
    m1: "(t, a1, c1) \<in> set (matches ic (Group 1 (Repeat Word 1 None)) ([], s, ?N))"
    and h1: "matches ic ?R2 (t, a1, c1) = (b, a, caps) # z1" by (auto simp del: matches.simps)
  from m1 run_length_le[of ic Word s]
  have t: "t \<noteq> []" "s = t @ a1" "c1 = [Some t, None, None, None]"
    by (auto simp: in_Group in_Repeat_plus simp del: matches.simps)
  from Seq_head[OF h1] obtain b2 a2 c2 z2 where
    m2: "(b2, a2, c2) \<in> set (matches ic ?O2 (t, a1, c1))"
    and h2: "matches ic ?R3 (b2, a2, c2) = (b, a, caps) # z2" by (auto simp del: matches.simps)
  from m2 t(3) obtain sc where sc: "sc \<noteq> Some []"
    "b2 = t @ (case sc of None \<Rightarrow> [] | Some x \<Rightarrow> ''('' @ x @ '')'')"
    "a1 = (case sc of None \<Rightarrow> [] | Some x \<Rightarrow> ''('' @ x @ '')'') @ a2"
    "c2 = [Some t, sc, None, None]"
  proof (cases "(b2, a2, c2) = (t, a1, c1)")
    case True
    with t(3) that[of None] show ?thesis by simp
  next
    case False
    with m2 have "(b2, a2, c2) \<in> set (matches ic (Seq (Char CHR ''('') (Seq (Group 2 (Repeat Dot 1 None)) (Char CHR '')''))) (t, a1, c1))"
      by (simp only: in_Opt) (simp del: matches.simps)
    then obtain n where "1 \<le> n" "n \<le> run_length ic Dot (tl a1)"
      "a1 = CHR ''('' # take n (tl a1) @ CHR '')'' # a2"
      "b2 = t @ CHR ''('' # take n (tl a1) @ [CHR '')'']"
      "c2 = c1[Suc 0 := Some (take n (tl a1))]"
      by (auto simp: in_Seq in_Group in_Repeat_plus in_Char simp del: matches.simps)
    with t(3) that[of "Some (take n (tl a1))"] show ?thesis
      by (cases "tl a1") auto
  qed
  from Seq_head[OF h2] obtain b3 a3 c3 z3 where
    m3: "(b3, a3, c3) \<in> set (matches ic (Opt (Group 3 (Char CHR ''!''))) (b2, a2, c2))"
    and h3: "matches ic ?R4 (b3, a3, c3) = (b, a, caps) # z3" by (auto simp del: matches.simps)
  from m3 sc(4) obtain bg where bg: "bg = None \<or> bg = Some ''!''"
    "b3 = b2 @ (case bg of None \<Rightarrow> [] | Some x \<Rightarrow> x)"
    "a2 = (case bg of None \<Rightarrow> [] | Some x \<Rightarrow> x) @ a3"
    "c3 = [Some t, sc, bg, None]"
  proof (cases "(b3, a3, c3) = (b2, a2, c2)")
    case True
    with sc(4) that[of None] show ?thesis by simp
  next
    case False
    with m3 have "(b3, a3, c3) \<in> set (matches ic (Group 3 (Char CHR ''!'')) (b2, a2, c2))"
      by (simp only: in_Opt) (simp del: matches.simps)
    with sc(4) that[of "Some ''!''"] show ?thesis
      by (auto simp: in_Group in_Char eval_nat_numeral simp del: matches.simps)
  qed
  from Seq_head[OF h3] obtain b4 a4 c4 z4 where
    m4: "(b4, a4, c4) \<in> set (matches ic (Char CHR '':'') (b3, a3, c3))"
    and h4: "matches ic ?R5 (b4, a4, c4) = (b, a, caps) # z4" by (auto simp del: matches.simps)
  from Seq_head[OF h4] obtain b5 a5 c5 z5 where
    m5: "(b5, a5, c5) \<in> set (matches ic (Char CHR '' '') (b4, a4, c4))"
    and h5: "matches ic ?R6 (b5, a5, c5) = (b, a, caps) # z5" by (auto simp del: matches.simps)
  from m4 m5 have col: "a3 = '': '' @ a5" "b5 = b3 @ '': ''" "c5 = c3"
    by (auto simp: in_Char simp del: matches.simps)
  from hd_Group[OF h5] obtain b' a' c0 zs where
    g: "matches ic (Repeat Dot 1 None) (b5, a5, c5) = (b', a', c0) # zs"
    and y: "(b, a, caps) = (b', a', c0[4 - 1 := Some (drop (length b5) b')])"
    by blast
  from hd_Repeat_plus[OF g] have r: "1 \<le> run_length ic Dot a5"
    "b' = b5 @ take (run_length ic Dot a5) a5" "a' = drop (run_length ic Dot a5) a5" "c0 = c5"
    by auto
  let ?subj = "take (run_length ic Dot a5) a5"
  have subj: "?subj = first_line a5" "a5 = ?subj @ a"
    using r(3) y by (simp_all add: run_length_takeWhile first_line_def class_matches_Dot_fun)
  have ne: "?subj \<noteq> []" using r(1) run_length_le[of ic Dot a5] by auto
  have caps: "caps = [Some t, sc, bg, Some ?subj]"
    using y r(2,4) col(3) bg(4) by (simp add: eval_nat_numeral)
  have s: "s = t @ (case sc of None \<Rightarrow> [] | Some x \<Rightarrow> ''('' @ x @ '')'')
                  @ (case bg of None \<Rightarrow> [] | Some x \<Rightarrow> x) @ '': '' @ ?subj @ a"
    using t(2) sc(3) bg(3) col(1) subj(2) by simp
  have fl: "?subj = first_line (?subj @ a)" using subj by simp
  from caps t(1) ne sc(1) bg(1) s fl show ?thesis by blast
qed

lemma exec_defaultRegex:
  "exec (defaultRegex cs) s
     = (case matches (\<not> cs) headerPattern ([], s, [None, None, None, None]) of
          [] \<Rightarrow> None
        | (b, a, caps) # _ \<Rightarrow>
            Some \<lparr>match_index = 0, matched = b, groups = caps, endIndex = length b\<rparr>)"
proof -
  have "exec (defaultRegex cs) s = match_at (defaultRegex cs) s 0"
    unfolding defaultRegex_def headerPattern_unfold by (rule exec_anchored)
  also have "\<dots> = (case matches (\<not> cs) headerPattern ([], s, [None, None, None, None]) of
          [] \<Rightarrow> None
        | (b, a, caps) # _ \<Rightarrow>
            Some \<lparr>match_index = 0, matched = b, groups = caps, endIndex = length b\<rparr>)"
    by (simp add: match_at_def defaultRegex_def group_count_headerPattern eval_nat_numeral
             del: matches.simps split: list.splits)
  finally show ?thesis .
qed

lemma defaultRegex_groups:
  assumes "exec (defaultRegex cs) s = Some m"
  shows "\<exists>t sc bang subj. groups m = [Some t, sc, bang, Some subj]"
proof -
  from assms obtain b a caps rest where
    "matches (\<not> cs) headerPattern ([], s, [None, None, None, None]) = (b, a, caps) # rest"
    and "groups m = caps"
    by (auto simp: exec_defaultRegex split: list.splits)
  with header_shape[of "\<not> cs" s b a caps rest] show ?thesis by auto
qed

lemma default_groups_shape:
  assumes "default_groups cs s = Some (t, sc, bg, subj)"
  shows "t \<noteq> [] \<and> subj \<noteq> [] \<and> sc \<noteq> Some [] \<and> (bg = None \<or> bg = Some ''!'')
         \<and> (\<exists>a. s = t @ (case sc of None \<Rightarrow> [] | Some x \<Rightarrow> ''('' @ x @ '')'')
                  @ (case bg of None \<Rightarrow> [] | Some x \<Rightarrow> x) @ '': '' @ subj @ a
               \<and> subj = first_line (subj @ a))"
proof -
  from assms obtain m where m: "exec (defaultRegex cs) s = Some m"
    and g: "groups m = [Some t, sc, bg, Some subj]"
    by (auto simp: default_groups_def split: option.splits list.splits)
  from m obtain b a caps rest where
    h: "matches (\<not> cs) headerPattern ([], s, [None, None, None, None]) = (b, a, caps) # rest"
    and "groups m = caps"
    by (auto simp: exec_defaultRegex split: list.splits)
  with g header_shape[OF h] show ?thesis by auto
qed

lemma line_local_headerPattern: "line_local headerPattern"
  by (simp add: headerPattern_def isLineTerminator_def)

lemma line_break_dropWhile: "line_break (dropWhile (\<lambda>c. \<not> isLineTerminator c) s)"
  by (induction s) (auto simp: line_break_def)

lemma default_groups_first_line:
  "default_groups cs s = default_groups cs (first_line s)"
proof -
  let ?N = "[None, None, None, None] :: string option list"
  have s: "s = first_line s @ dropWhile (\<lambda>c. \<not> isLineTerminator c) s"
    by (simp add: first_line_def)
  have "matches (\<not> cs) headerPattern ([], first_line s @ dropWhile (\<lambda>c. \<not> isLineTerminator c) s, ?N)
      = map (extend (dropWhile (\<lambda>c. \<not> isLineTerminator c) s))
            (matches (\<not> cs) headerPattern ([], first_line s, ?N))"
    by (rule matches_line_local[OF line_local_headerPattern line_break_dropWhile])
  with s have "matches (\<not> cs) headerPattern ([], s, ?N)
      = map (extend (dropWhile (\<lambda>c. \<not> isLineTerminator c) s))
            (matches (\<not> cs) headerPattern ([], first_line s, ?N))"
    by simp
  then have "map_option groups (exec (defaultRegex cs) s)
           = map_option groups (exec (defaultRegex cs) (first_line s))"
    by (cases "matches (\<not> cs) headerPattern ([], first_line s, ?N)")
       (auto simp: exec_defaultRegex simp del: matches.simps)
  then show ?thesis
    by (auto simp: default_groups_def split: option.splits)
qed

lemma stringToHeader_default:
  assumes "default_grammar opts"
  shows "stringToHeader val opts =
     (case default_groups (truthy (with_default False (caseSensitive opts))) val of
        None \<Rightarrow> Inl (TypeError errorMsg)
      | Some (t, sc, bang, subj) \<Rightarrow>
          Inr \<lparr>type = t @ (case bang of None \<Rightarrow> [] | Some b \<Rightarrow> b),
               scope = Present (case sc of None \<Rightarrow> Null | Some s \<Rightarrow> Value s),
               subject = subj\<rparr>)"
  using assms
  by (auto simp: stringToHeader_def default_grammar_def Let_def
           split: optional.splits header_regex.splits option.splits)

lemma stringToHeader_first_line:
  "default_grammar opts \<Longrightarrow> stringToHeader s opts = stringToHeader (first_line s) opts"
  by (simp add: stringToHeader_default default_groups_first_line[of _ s])

lemma first_line_single:
  "\<not> list_ex isLineTerminator s \<Longrightarrow> first_line s = s"
  by (induction s) (auto simp: first_line_def)

lemma endsWith_append: "endsWith (t @ x) x"
  by (simp add: endsWith_def)

text \<open>
  The pattern starts with a word character, so a value that starts with white space does
  not match it.
\<close>

lemma white_space_not_word: "isWhiteSpace w \<Longrightarrow> \<not> class_matches ic Word w"
  by (auto simp: isWhiteSpace_def class_matches_def swapCase_def isWordChar_def less_eq_char_def)

lemma headerPattern_starts_with_word:
  assumes "\<not> class_matches ic Word w"
  shows "matches ic headerPattern ([], w # s, caps) = []"
proof -
  from assms have "run_length ic Word (w # s) = 0" by (simp add: run_length_def)
  then have "matches ic (Group 1 (Repeat Word 1 None)) ([], w # s, caps) = []"
    by (simp add: Let_def)
  then show ?thesis
    unfolding headerPattern_unfold matches_LineStart_Seq
    by (simp only: matches.simps(4) list.map concat.simps)
qed

lemma stringToHeader_leading_space:
  assumes "default_grammar opts" "isWhiteSpace w"
  shows "stringToHeader (w # s) opts = Inl (TypeError errorMsg)"
proof -
  have "exec (defaultRegex cs) (w # s) = None" for cs
    using headerPattern_starts_with_word[OF white_space_not_word[OF assms(2)]]
    by (simp add: exec_defaultRegex del: matches.simps)
  then have "default_groups cs (w # s) = None" for cs
    by (simp add: default_groups_def)
  then show ?thesis by (simp add: stringToHeader_default[OF assms(1)])
qed

section \<open>Searching for a word, case ignored\<close>

text \<open>
  A pattern that is a choice of ASCII words, with the \<open>i\<close> flag, finds a match in a
  string exactly when one of the words occurs in it, case ignored.
\<close>

lemma concat_singletons: "concat (map (\<lambda>x. [x]) xs) = xs"
  by (induction xs) auto

lemma matches_cat_Cons:
  "matches ic (cat (r # rs)) st = concat (map (matches ic (cat rs)) (matches ic r st))"
proof (cases rs)
  case Nil
  have "matches ic Empty = (\<lambda>x. [x])" by (rule ext) simp
  with Nil show ?thesis by (simp add: concat_singletons)
next
  case (Cons q qs)
  then show ?thesis by simp
qed

lemma matches_lit:
  "matches ic (lit p) (b, a, c) =
     (if length p \<le> length a \<and> list_all2 (char_matches ic) p (take (length p) a)
      then [(b @ take (length p) a, drop (length p) a, c)] else [])"
proof (induction p arbitrary: b a)
  case Nil
  then show ?case by (simp add: lit_def)
next
  case (Cons x xs)
  have "lit (x # xs) = cat (Char x # map Char xs)" by (simp add: lit_def)
  moreover have "cat (map Char xs) = lit xs" by (simp add: lit_def)
  ultimately have "matches ic (lit (x # xs)) (b, a, c)
      = concat (map (matches ic (lit xs)) (matches ic (Char x) (b, a, c)))"
    by (simp only: matches_cat_Cons)
  then show ?case using Cons.IH
    by (cases a) (auto simp del: matches.simps(4) simp: list_all2_Cons1)
qed

lemma of_char_lower:
  "of_char (lower c) = (let n = (of_char c :: nat) in if 65 \<le> n \<and> n \<le> 90 then n + 32 else n)"
  by (auto simp: lower_def less_eq_char_def Let_def of_char_of)

lemma char_matches_ascii:
  assumes "(of_char p :: nat) < 128"
  shows "char_matches True p c \<longleftrightarrow> lower c = lower p"
proof -
  have "char_matches True p c \<longleftrightarrow> (of_char c :: nat) = of_char p \<or> (of_char (swapCase c) :: nat) = of_char p"
    by (simp add: char_matches_def)
  also have "\<dots> \<longleftrightarrow> (of_char (lower c) :: nat) = of_char (lower p)"
    using assms by (auto simp: of_char_swapCase of_char_lower Let_def split: if_splits)
  also have "\<dots> \<longleftrightarrow> lower c = lower p" by simp
  finally show ?thesis .
qed

lemma list_all2_char_matches:
  assumes "\<And>x. x \<in> set p \<Longrightarrow> (of_char x :: nat) < 128"
  shows "list_all2 (char_matches True) p w \<longleftrightarrow> map lower w = map lower p"
  using assms
proof (induction p arbitrary: w)
  case Nil
  then show ?case by auto
next
  case (Cons x xs)
  then show ?case by (cases w) (auto simp: char_matches_ascii)
qed

lemma first_match_None_iff:
  "first_match re s is = None \<longleftrightarrow> (\<forall>i \<in> set is. match_at re s i = None)"
  by (induction "is") (auto split: option.splits)

lemma test_iff:
  "test (RegExp r ic) s
     \<longleftrightarrow> (\<exists>i \<le> length s. matches ic r (take i s, drop i s, replicate (group_count r) None) \<noteq> [])"
proof -
  have "match_at (RegExp r ic) s i = None
      \<longleftrightarrow> matches ic r (take i s, drop i s, replicate (group_count r) None) = []" for i
    by (auto simp: match_at_def split: list.splits)
  then show ?thesis
    by (auto simp: test_def exec_def exec_from_def first_match_None_iff less_Suc_eq_le
             simp del: upt_Suc)
qed

lemma lit_at_iff:
  assumes ascii: "\<And>x. x \<in> set p \<Longrightarrow> (of_char x :: nat) < 128"
  shows "(\<exists>i \<le> length s. matches True (lit p) (take i s, drop i s, c) \<noteq> [])
     \<longleftrightarrow> occurs_ignoring_case p s"
proof
  assume "\<exists>i \<le> length s. matches True (lit p) (take i s, drop i s, c) \<noteq> []"
  then obtain i where i: "i \<le> length s" "length p \<le> length (drop i s)"
    "list_all2 (char_matches True) p (take (length p) (drop i s))"
    by (auto simp: matches_lit split: if_splits)
  have "s = take i s @ take (length p) (drop i s) @ drop (length p) (drop i s)"
    by (simp only: append_take_drop_id)
  moreover from i(3) have "map lower (take (length p) (drop i s)) = map lower p"
    by (simp only: list_all2_char_matches[OF ascii])
  ultimately show "occurs_ignoring_case p s"
    unfolding occurs_ignoring_case_def by (intro exI conjI)
next
  assume "occurs_ignoring_case p s"
  then obtain before w after where s: "s = before @ w @ after"
    and "map lower w = map lower p"
    unfolding occurs_ignoring_case_def by (elim exE conjE)
  then have w: "list_all2 (char_matches True) p w"
    by (simp only: list_all2_char_matches[OF ascii])
  from w have len: "length p = length w" by (rule list_all2_lengthD)
  have "matches True (lit p) (take (length before) s, drop (length before) s, c) \<noteq> []"
    using s w len by (simp add: matches_lit)
  moreover have "length before \<le> length s" using s by simp
  ultimately show "\<exists>i \<le> length s. matches True (lit p) (take i s, drop i s, c) \<noteq> []"
    by (intro exI conjI)
qed

lemma test_three_words:
  assumes "\<And>x. x \<in> set p \<union> set q \<union> set r \<Longrightarrow> (of_char x :: nat) < 128"
  shows "test (RegExp (Alt (lit p) (Alt (lit q) (lit r))) True) s
     \<longleftrightarrow> occurs_ignoring_case p s \<or> occurs_ignoring_case q s \<or> occurs_ignoring_case r s"
proof -
  have cat0: "(\<And>x. x \<in> set rs \<Longrightarrow> group_count x = 0) \<Longrightarrow> group_count (cat rs) = 0" for rs
    by (induction rs rule: cat.induct) auto
  have gc: "group_count (lit x) = 0" for x
    unfolding lit_def by (rule cat0) auto
  have "test (RegExp (Alt (lit p) (Alt (lit q) (lit r))) True) s
      \<longleftrightarrow> (\<exists>i \<le> length s. matches True (lit p) (take i s, drop i s, []) \<noteq> [])
        \<or> (\<exists>i \<le> length s. matches True (lit q) (take i s, drop i s, []) \<noteq> [])
        \<or> (\<exists>i \<le> length s. matches True (lit r) (take i s, drop i s, []) \<noteq> [])"
    unfolding test_iff by (auto simp: gc)
  moreover have "(\<exists>i \<le> length s. matches True (lit x) (take i s, drop i s, []) \<noteq> [])
      \<longleftrightarrow> occurs_ignoring_case x s" if "x = p \<or> x = q \<or> x = r" for x
    using that assms by (intro lit_at_iff) auto
  ultimately show ?thesis by (simp only: simp_thms)
qed

lemma patchRegex_test:
  "test patchRegex ty \<longleftrightarrow>
     occurs_ignoring_case ''fix'' ty \<or> occurs_ignoring_case ''bugfix'' ty \<or> occurs_ignoring_case ''patch'' ty"
  unfolding patchRegex_def by (rule test_three_words) auto

lemma minorRegex_test:
  "test minorRegex ty \<longleftrightarrow>
     occurs_ignoring_case ''feat'' ty \<or> occurs_ignoring_case ''feature'' ty \<or> occurs_ignoring_case ''minor'' ty"
  unfolding minorRegex_def by (rule test_three_words) auto

lemma breakingTypeRegex_test:
  "test breakingTypeRegex ty \<longleftrightarrow>
     occurs_ignoring_case ''break'' ty \<or> occurs_ignoring_case ''breaking'' ty \<or> occurs_ignoring_case ''major'' ty"
  unfolding breakingTypeRegex_def by (rule test_three_words) auto

section \<open>The mention pattern\<close>

text \<open>Every match of the mention pattern sets its group.\<close>

lemma mentionsRegex_unfold:
  "mentionsRegex dot =
     Seq (Alt LineStart (Class (NoneOf ''_!@#$%&*'' alnum)))
       (Seq (Seq (Char CHR ''@'') (NotFollowedBy (Char CHR ''/'')))
         (Seq (Group 1 (Repeat (OneOf (if dot then ''/_.'' else ''/_'') alnum) 1 (Some 15)))
              (Alt (Seq WordBoundary (NotFollowedBy (Char CHR ''@''))) LineEnd)))"
  by (simp add: mentionsRegex_def)

lemma mentionsRegex_groups:
  assumes "match_at (RegExp (mentionsRegex dot) False) s i = Some m"
  shows "\<exists>g. groups m = [Some g]"
proof -
  let ?A = "Alt LineStart (Class (NoneOf ''_!@#$%&*'' alnum))"
  let ?S = "Seq (Char CHR ''@'') (NotFollowedBy (Char CHR ''/''))"
  let ?G = "Group 1 (Repeat (OneOf (if dot then ''/_.'' else ''/_'') alnum) 1 (Some 15))"
  let ?E = "Alt (Seq WordBoundary (NotFollowedBy (Char CHR ''@''))) LineEnd"
  have gc: "group_count (mentionsRegex dot) = 1" by (simp add: mentionsRegex_def)
  from assms obtain b a caps rest where
    h0: "matches False (mentionsRegex dot) (take i s, drop i s, [None]) = (b, a, caps) # rest"
    and g: "groups m = caps"
    by (auto simp: match_at_def gc split: list.splits simp del: matches.simps)
  from h0 have "matches False (Seq ?A (Seq ?S (Seq ?G ?E))) (take i s, drop i s, [None]) = (b, a, caps) # rest"
    by (simp only: mentionsRegex_unfold)
  from Seq_head[OF this] obtain b1 a1 c1 z1 where
    m1: "(b1, a1, c1) \<in> set (matches False ?A (take i s, drop i s, [None]))"
    and h1: "matches False (Seq ?S (Seq ?G ?E)) (b1, a1, c1) = (b, a, caps) # z1"
    by (auto simp del: matches.simps)
  from group_free_captures[OF _ m1] have c1: "c1 = [None]" by simp
  from Seq_head[OF h1] obtain b2 a2 c2 z2 where
    m2: "(b2, a2, c2) \<in> set (matches False ?S (b1, a1, c1))"
    and h2: "matches False (Seq ?G ?E) (b2, a2, c2) = (b, a, caps) # z2"
    by (auto simp del: matches.simps)
  from group_free_captures[OF _ m2] c1 have c2: "c2 = [None]" by simp
  from Seq_head[OF h2] obtain b3 a3 c3 z3 where
    m3: "(b3, a3, c3) \<in> set (matches False ?G (b2, a2, c2))"
    and h3: "matches False ?E (b3, a3, c3) = (b, a, caps) # z3"
    by (auto simp del: matches.simps)
  from m3 obtain c0 where
    m3': "(b3, a3, c0) \<in> set (matches False
            (Repeat (OneOf (if dot then ''/_.'' else ''/_'') alnum) 1 (Some 15)) (b2, a2, c2))"
    and c3': "c3 = c0[1 - 1 := Some (drop (length b2) b3)]"
    by (auto simp: in_Group simp del: matches.simps)
  from group_free_captures[OF _ m3'] c2 have "c0 = [None]" by simp
  with c3' obtain x where c3: "c3 = [Some x]" by simp
  from h3 have "(b, a, caps) \<in> set (matches False ?E (b3, a3, c3))" by simp
  from group_free_captures[OF _ this] c3 have "caps = [Some x]" by simp
  with g show ?thesis by simp
qed

text \<open>
  A match of the mention pattern starts at the sigil or at the character before it, and
  so does the index of every mention that the loop collects.
\<close>

lemma mention_match_start:
  assumes "match_at (RegExp (mentionsRegex dot) False) s i = Some m"
  shows "match_index m = i
       \<and> (\<exists>rest. drop i s = CHR ''@'' # rest \<or> (\<exists>d. drop i s = d # CHR ''@'' # rest))"
proof -
  let ?A = "Alt LineStart (Class (NoneOf ''_!@#$%&*'' alnum))"
  let ?S = "Seq (Char CHR ''@'') (NotFollowedBy (Char CHR ''/''))"
  let ?G = "Group 1 (Repeat (OneOf (if dot then ''/_.'' else ''/_'') alnum) 1 (Some 15))"
  let ?E = "Alt (Seq WordBoundary (NotFollowedBy (Char CHR ''@''))) LineEnd"
  have gc: "group_count (mentionsRegex dot) = 1" by (simp add: mentionsRegex_def)
  from assms obtain b a caps rest where
    h0: "matches False (mentionsRegex dot) (take i s, drop i s, [None]) = (b, a, caps) # rest"
    and i: "match_index m = i"
    by (auto simp: match_at_def gc split: list.splits simp del: matches.simps)
  from h0 have "matches False (Seq ?A (Seq ?S (Seq ?G ?E))) (take i s, drop i s, [None]) = (b, a, caps) # rest"
    by (simp only: mentionsRegex_unfold)
  from Seq_head[OF this] obtain b1 a1 c1 z1 where
    m1: "(b1, a1, c1) \<in> set (matches False ?A (take i s, drop i s, [None]))"
    and h1: "matches False (Seq ?S (Seq ?G ?E)) (b1, a1, c1) = (b, a, caps) # z1"
    by (auto simp del: matches.simps)
  from m1 have a1: "a1 = drop i s \<or> (\<exists>d. drop i s = d # a1)"
    by (cases "drop i s") (auto split: if_splits)
  from Seq_head[OF h1] obtain b2 a2 c2 where
    m2: "(b2, a2, c2) \<in> set (matches False ?S (b1, a1, c1))"
    by (auto simp del: matches.simps)
  then obtain rest' where r: "a1 = CHR ''@'' # rest'"
    by (auto simp: in_Seq in_Char char_matches_def simp del: matches.simps)
  from a1 show ?thesis
  proof
    assume "a1 = drop i s"
    with r have "drop i s = CHR ''@'' # rest'" by simp
    with i show ?thesis by blast
  next
    assume "\<exists>d. drop i s = d # a1"
    then obtain d where "drop i s = d # CHR ''@'' # rest'" using r by auto
    with i show ?thesis by blast
  qed
qed

lemma collect_index:
  "x \<in> set (collect dot s lastIndex) \<Longrightarrow>
     lastIndex \<le> index x
     \<and> (\<exists>rest. drop (index x) s = CHR ''@'' # rest \<or> drop (Suc (index x)) s = CHR ''@'' # rest)"
proof (induction dot s lastIndex rule: collect.induct)
  case (1 dot str lastIndex)
  show ?case
  proof (cases "exec_from (RegExp (mentionsRegex dot) False) str lastIndex")
    case None
    then have "collect dot str lastIndex = []"
      by (subst collect.simps) (simp only: option.case)
    with "1.prems" show ?thesis by simp
  next
    case (Some m)
    from first_match_Some[OF Some[unfolded exec_from_def]]
    obtain i where i: "lastIndex \<le> i" "i \<le> length str"
      "match_at (RegExp (mentionsRegex dot) False) str i = Some m" by auto
    from mention_match_start[OF i(3)] obtain rest where
      mi: "match_index m = i"
      and at: "drop i str = CHR ''@'' # rest \<or> (\<exists>d. drop i str = d # CHR ''@'' # rest)" by blast
    have "drop (Suc i) str = tl (drop i str)" by (simp add: drop_Suc tl_drop)
    with at have at': "drop i str = CHR ''@'' # rest \<or> drop (Suc i) str = CHR ''@'' # rest"
      by auto
    from exec_from_bounds[OF Some] have e: "lastIndex \<le> endIndex m"
      by simp
    have "collect dot str lastIndex
        = \<lparr>index = match_index m, handle = trim (matched m), mention = group1 m\<rparr>
          # collect dot str (endIndex m)"
      by (subst collect.simps) (simp only: Some option.case)
    with "1.prems" consider
      "x = \<lparr>index = match_index m, handle = trim (matched m), mention = group1 m\<rparr>"
      | "x \<in> set (collect dot str (endIndex m))"
      by (auto simp del: collect.simps)
    then show ?thesis
    proof cases
      case 1
      with mi i(1) at' show ?thesis by (auto simp del: collect.simps)
    next
      case 2
      from "1.IH"[OF Some 2] e show ?thesis by (auto simp del: collect.simps)
    qed
  qed
qed

section \<open>Helper facts about the plugins\<close>

lemma normalized_structured:
  "header c = HeaderType h \<Longrightarrow> normalized c opts = Inr c"
  by (simp add: normalized_def normalizeCommit_def Let_def)

lemma extend_each_empty: "extend_each [] opts items = Inr (map commitObject items)"
  by (induction items) (simp_all add: extendCommitCb_def)

lemma getMentions_scenario:
  "getMentions ''foo @tunnckoCore and @bar, right?'' False
     = [\<lparr>index = 3, handle = ''@tunnckoCore'', mention = ''tunnckoCore''\<rparr>,
        \<lparr>index = 20, handle = ''@bar'', mention = ''bar''\<rparr>]"
  by code_simp

section \<open>Claims about parsing\<close>

text \<open>
  Claim C1, at the input \<open>feat: awesome yeah\<close>, a commit message with no blank line.
  \<open>parseCommit\<close> accepts it, and the \<open>body\<close> and \<open>footer\<close> of the result are
  \<open>undefined\<close>, not \<open>null\<close>: the \<open>null\<close> that the destructuring puts in for a missing
  segment is turned into \<open>undefined\<close> by \<open>?.trim()\<close>.
\<close>

theorem parseCommit_header_only:
  "parseCommit ''feat: awesome yeah'' defaults
     = Inr \<lparr>header = HeaderType \<lparr>type = ''feat'', scope = Present Null, subject = ''awesome yeah''\<rparr>,
            body = Undefined, footer = Undefined,
            increment = Absent, isBreaking = Absent, mentions = Absent, extra = []\<rparr>"
  by code_simp

text \<open>
  Claim C2, as amended. \<open>parseCommit\<close> gives the whole text to \<open>parseHeader\<close>,
  which trims it and applies the header grammar: the header of an accepted commit is
  \<open>parseHeader\<close> of the text. With the default pattern this is the grammar applied
  to the first line of the trimmed text, so nothing after that line has a part in the type,
  the scope or the subject.
\<close>

theorem parseCommit_header:
  assumes "parseCommit text opts = Inr c"
  shows "\<exists>h. header c = HeaderType h \<and> parseHeader text opts = Inr h
           \<and> (default_grammar opts \<longrightarrow> stringToHeader (first_line (trim text)) opts = Inr h)"
proof -
  from assms obtain h where h: "parseHeader text opts = Inr h" "header c = HeaderType h"
    by (auto simp: parseCommit_def Let_def split: if_splits sum.splits)
  from h(1) have "stringToHeader (trim text) opts = Inr h"
    by (auto simp: parseHeader_def split: if_splits)
  then have "default_grammar opts \<longrightarrow> stringToHeader (first_line (trim text)) opts = Inr h"
    using stringToHeader_first_line[of opts "trim text"] by simp
  with h show ?thesis by blast
qed

text \<open>An accepted message with a scope and a body, under the default options.\<close>

theorem parseCommit_header_witness:
  "parseCommit (''fix(cli): bar qux'' @ [CHR 0x0A, CHR 0x0A] @ ''the body'') defaults
     = Inr ((plain (HeaderType \<lparr>type = ''fix'', scope = Present (Value ''cli''), subject = ''bar qux''\<rparr>))
             \<lparr>body := Present (Value ''the body''), footer := Undefined\<rparr>)
   \<and> stringToHeader (first_line (trim (''fix(cli): bar qux'' @ [CHR 0x0A, CHR 0x0A] @ ''the body''))) defaults
     = Inr \<lparr>type = ''fix'', scope = Present (Value ''cli''), subject = ''bar qux''\<rparr>"
proof -
  let ?t = "''fix(cli): bar qux'' @ [CHR 0x0A, CHR 0x0A] @ ''the body''"
  let ?h = "\<lparr>type = ''fix'', scope = Present (Value ''cli''), subject = ''bar qux''\<rparr>"
  let ?c = "(plain (HeaderType ?h))\<lparr>body := Present (Value ''the body''), footer := Undefined\<rparr>"
  have p: "parseCommit ?t defaults = Inr ?c" by code_simp
  have d: "default_grammar defaults" by code_simp
  have hc: "header ?c = HeaderType ?h" by (simp add: plain_def)
  from parseCommit_header[OF p] hc d
  have "stringToHeader (first_line (trim ?t)) defaults = Inr ?h" by auto
  with p show ?thesis by simp
qed

text \<open>
  The claim as stated fails in both directions. \<open>"\n\nfix: bar"\<close> is accepted and
  its header comes from the text after the blank line, while the text before the blank
  line is empty and \<open>parseHeader\<close> rejects it. \<open>"fix: bar \n\nbody"\<close> gets the
  subject \<open>bar \<close> with the space, while \<open>parseHeader\<close> of the text before the
  blank line gives \<open>bar\<close>.
\<close>

theorem parseCommit_header_counterexample:
  "parseCommit ([CHR 0x0A, CHR 0x0A] @ ''fix: bar'') defaults
     = Inr ((plain (HeaderType \<lparr>type = ''fix'', scope = Present Null, subject = ''bar''\<rparr>))
             \<lparr>body := Present (Value ''fix: bar''), footer := Undefined\<rparr>)
   \<and> parseHeader (before_blank_line ([CHR 0x0A, CHR 0x0A] @ ''fix: bar'')) defaults
     \<noteq> Inr \<lparr>type = ''fix'', scope = Present Null, subject = ''bar''\<rparr>
   \<and> before_blank_line ([CHR 0x0A, CHR 0x0A] @ ''fix: bar'') = []
   \<and> parseHeader [] defaults
     = Inl (TypeError (''expect '' @ [CHR 0x60] @ ''header'' @ [CHR 0x60] @ '' to be non empty string''))
   \<and> parseCommit (''fix: bar '' @ [CHR 0x0A, CHR 0x0A] @ ''body'') defaults
     = Inr ((plain (HeaderType \<lparr>type = ''fix'', scope = Present Null, subject = ''bar ''\<rparr>))
             \<lparr>body := Present (Value ''body''), footer := Undefined\<rparr>)
   \<and> parseHeader (before_blank_line (''fix: bar '' @ [CHR 0x0A, CHR 0x0A] @ ''body'')) defaults
     \<noteq> Inr \<lparr>type = ''fix'', scope = Present Null, subject = ''bar ''\<rparr>
   \<and> before_blank_line (''fix: bar '' @ [CHR 0x0A, CHR 0x0A] @ ''body'') = ''fix: bar ''
   \<and> parseHeader ''fix: bar '' defaults
     = Inr \<lparr>type = ''fix'', scope = Present Null, subject = ''bar''\<rparr>"
  by code_simp

text \<open>
  Claim C3, as amended. Let \<open>s\<close> be a single line without white space around it that
  \<open>parseHeader\<close> accepts under the default pattern, and let the parsed header not have
  both a scope and the bang. Then \<open>stringifyHeader\<close> of the parsed header is \<open>s\<close>.
\<close>

theorem header_roundtrip:
  assumes dflt: "default_grammar opts"
    and parse: "parseHeader s opts = Inr h"
    and line: "\<not> list_ex isLineTerminator s"
    and trimmed: "trim s = s"
    and one: "scope h = Present Null \<or> \<not> endsWith (type h) ''!''"
  shows "stringifyHeader (HeaderType h) = Inr s"
proof -
  let ?cs = "truthy (with_default False (caseSensitive opts))"
  from parse trimmed have "stringToHeader s opts = Inr h"
    by (auto simp: parseHeader_def split: if_splits)
  then obtain t sc bg subj where g: "default_groups ?cs s = Some (t, sc, bg, subj)"
    and h: "h = \<lparr>type = t @ (case bg of None \<Rightarrow> [] | Some b \<Rightarrow> b),
                  scope = Present (case sc of None \<Rightarrow> Null | Some x \<Rightarrow> Value x),
                  subject = subj\<rparr>"
    by (auto simp: stringToHeader_default[OF dflt] split: option.splits)
  from default_groups_shape[OF g] obtain a where
    ne: "t \<noteq> []" "subj \<noteq> []" "sc \<noteq> Some []" and bg: "bg = None \<or> bg = Some ''!''"
    and s: "s = t @ (case sc of None \<Rightarrow> [] | Some x \<Rightarrow> ''('' @ x @ '')'')
                  @ (case bg of None \<Rightarrow> [] | Some x \<Rightarrow> x) @ '': '' @ subj @ a"
    and fl: "subj = first_line (subj @ a)" by blast
  have "\<not> list_ex isLineTerminator (subj @ a)"
    using line by (subst (asm) s) (simp add: list_ex_iff)
  from first_line_single[OF this] fl have a: "a = []" by simp
  have both: "sc = None \<or> bg = None"
  proof (rule ccontr)
    assume "\<not> (sc = None \<or> bg = None)"
    with bg obtain x where "sc = Some x" "bg = Some ''!''" by auto
    with one h show False by (simp add: endsWith_append)
  qed
  have check: "checkHeader (HeaderType h) = Inr h"
    using ne h by (auto simp: checkHeader_def isNonEmptyString_def split: option.splits)
  have rendered: "type h @ scope_text (scope h) @ '': '' @ subject h = s"
  proof -
    have "type h @ scope_text (scope h) @ '': '' @ subject h
        = t @ (case sc of None \<Rightarrow> [] | Some x \<Rightarrow> ''('' @ x @ '')'')
            @ (case bg of None \<Rightarrow> [] | Some x \<Rightarrow> x) @ '': '' @ subj @ a"
      using both ne(3) h a by (auto split: option.splits)
    with s show ?thesis by simp
  qed
  show ?thesis
    using check rendered trimmed by (simp add: stringifyHeader_def validateHeader_def)
qed

text \<open>
  Two such headers: one with the bang and no scope, one with a scope and no bang.
\<close>

theorem header_roundtrip_witness:
  "stringifyHeader (HeaderType \<lparr>type = ''feat!'', scope = Present Null, subject = ''drop the old api''\<rparr>)
     = Inr ''feat!: drop the old api''
   \<and> stringifyHeader (HeaderType \<lparr>type = ''fix'', scope = Present (Value ''cli''), subject = ''bar qux''\<rparr>)
     = Inr ''fix(cli): bar qux''"
proof -
  let ?s = "''feat!: drop the old api''"
  let ?h = "\<lparr>type = ''feat!'', scope = Present Null, subject = ''drop the old api''\<rparr>"
  let ?s2 = "''fix(cli): bar qux''"
  let ?h2 = "\<lparr>type = ''fix'', scope = Present (Value ''cli''), subject = ''bar qux''\<rparr>"
  have d: "default_grammar defaults" by code_simp
  have 1: "parseHeader ?s defaults = Inr ?h" by code_simp
  have 2: "\<not> list_ex isLineTerminator ?s" by code_simp
  have 3: "trim ?s = ?s" by code_simp
  have 4: "scope ?h = Present Null \<or> \<not> endsWith (type ?h) ''!''" by simp
  have q1: "parseHeader ?s2 defaults = Inr ?h2" by code_simp
  have q2: "\<not> list_ex isLineTerminator ?s2" by code_simp
  have q3: "trim ?s2 = ?s2" by code_simp
  have q4: "scope ?h2 = Present Null \<or> \<not> endsWith (type ?h2) ''!''" by code_simp
  from header_roundtrip[OF d 1 2 3 4] header_roundtrip[OF d q1 q2 q3 q4] show ?thesis by simp
qed

text \<open>
  The claim as stated fails. \<open>feat(cli)!: x\<close> has no white space around it and
  follows the grammar; it comes back as \<open>feat!(cli): x\<close>, the bang having become part
  of the type, which is written before the scope. A string of two lines that follows the
  grammar comes back as its first line.
\<close>

theorem header_roundtrip_counterexample:
  "trim ''feat(cli)!: x'' = ''feat(cli)!: x''
   \<and> parseHeader ''feat(cli)!: x'' defaults
       = Inr \<lparr>type = ''feat!'', scope = Present (Value ''cli''), subject = ''x''\<rparr>
   \<and> stringifyHeader (HeaderType \<lparr>type = ''feat!'', scope = Present (Value ''cli''), subject = ''x''\<rparr>)
       \<noteq> Inr ''feat(cli)!: x''
   \<and> stringifyHeader (HeaderType \<lparr>type = ''feat!'', scope = Present (Value ''cli''), subject = ''x''\<rparr>)
       = Inr ''feat!(cli): x''
   \<and> trim (''fix: bar'' @ [CHR 0x0A] @ ''more'') = ''fix: bar'' @ [CHR 0x0A] @ ''more''
   \<and> parseHeader (''fix: bar'' @ [CHR 0x0A] @ ''more'') defaults
       = Inr \<lparr>type = ''fix'', scope = Present Null, subject = ''bar''\<rparr>
   \<and> stringifyHeader (HeaderType \<lparr>type = ''fix'', scope = Present Null, subject = ''bar''\<rparr>)
       \<noteq> Inr (''fix: bar'' @ [CHR 0x0A] @ ''more'')
   \<and> stringifyHeader (HeaderType \<lparr>type = ''fix'', scope = Present Null, subject = ''bar''\<rparr>)
       = Inr ''fix: bar''"
  by code_simp

section \<open>Claims about the plugins\<close>

text \<open>
  Claim C4. On a commit whose header is structured the increment plugin returns, for any
  options, the commit with \<open>increment\<close> set to \<open>major\<close> when \<open>isBreakingChange\<close>
  holds of it; else to \<open>minor\<close> when one of \<open>feat\<close>, \<open>feature\<close>, \<open>minor\<close>
  occurs in the type, case ignored; else to \<open>patch\<close> when one of \<open>fix\<close>,
  \<open>bugfix\<close>, \<open>patch\<close> does; else to the empty string. \<open>isBreakingChange\<close> does
  not fail on such a commit.
\<close>

theorem incrementPlugin_classifies:
  "header c = HeaderType h \<Longrightarrow>
     \<exists>breaking. isBreakingChange c = Inr breaking
       \<and> incrementPlugin c opts
           = Inr (c\<lparr>increment := Present (Str
                   (if breaking then ''major''
                    else if occurs_ignoring_case ''feat'' (type h)
                          \<or> occurs_ignoring_case ''feature'' (type h)
                          \<or> occurs_ignoring_case ''minor'' (type h) then ''minor''
                    else if occurs_ignoring_case ''fix'' (type h)
                          \<or> occurs_ignoring_case ''bugfix'' (type h)
                          \<or> occurs_ignoring_case ''patch'' (type h) then ''patch''
                    else []))\<rparr>)"
  by (simp add: incrementPlugin_def normalized_structured isBreakingChange_def classify_def
                patchRegex_test minorRegex_test)

text \<open>
  The scenario of the claim: \<open>{ header: { type: "feat!", subject: "x" } }\<close> is a breaking
  change and gets \<open>major\<close>, although \<open>feat\<close> occurs in its type.
\<close>

theorem incrementPlugin_classifies_witness:
  "incrementPlugin (plain (HeaderType \<lparr>type = ''feat!'', scope = Absent, subject = ''x''\<rparr>)) defaults
     = Inr ((plain (HeaderType \<lparr>type = ''feat!'', scope = Absent, subject = ''x''\<rparr>))
             \<lparr>increment := Present (Str ''major'')\<rparr>)
   \<and> (occurs_ignoring_case ''feat'' ''feat!'' \<or> occurs_ignoring_case ''feature'' ''feat!''
        \<or> occurs_ignoring_case ''minor'' ''feat!'')"
proof -
  let ?h = "\<lparr>type = ''feat!'', scope = Absent, subject = ''x''\<rparr>"
  have h: "header (plain (HeaderType ?h)) = HeaderType ?h" by (simp add: plain_def)
  have b: "isBreakingChange (plain (HeaderType ?h)) = Inr True" by code_simp
  have "test minorRegex ''feat!''" by code_simp
  then have m: "occurs_ignoring_case ''feat'' ''feat!'' \<or> occurs_ignoring_case ''feature'' ''feat!''
        \<or> occurs_ignoring_case ''minor'' ''feat!''"
    by (simp only: minorRegex_test)
  from incrementPlugin_classifies[OF h, of defaults] b m show ?thesis by auto
qed

text \<open>
  Claim C5, as amended. On a commit with a structured header whose body is
  \<open>foo @tunnckoCore and @bar, right?\<close>, and whose subject and footer hold no mention,
  the mentions plugin attaches the two mentions in order, with the indices 3 and 20. An
  index is where the match of the pattern starts, and the match starts with the character
  before the sigil (here the space), not with the sigil.
\<close>

theorem mentionsPlugin_scenario:
  assumes "header c = HeaderType h"
    and "body c = Present (Value ''foo @tunnckoCore and @bar, right?'')"
    and "getMentions (subject h) False = []"
    and "getMentions (or_empty (footer c)) False = []"
  shows "mentionsPlugin c opts
     = Inr (c\<lparr>mentions := Present
              [\<lparr>index = 3, handle = ''@tunnckoCore'', mention = ''tunnckoCore''\<rparr>,
               \<lparr>index = 20, handle = ''@bar'', mention = ''bar''\<rparr>]\<rparr>)"
  using assms
  by (simp add: mentionsPlugin_def normalized_structured getMentions_scenario)

text \<open>A commit of this kind: the header \<open>fix: x\<close>, the body of the claim, no footer.\<close>

theorem mentionsPlugin_scenario_witness:
  "mentionsPlugin
     ((plain (HeaderType \<lparr>type = ''fix'', scope = Absent, subject = ''x''\<rparr>))
        \<lparr>body := Present (Value ''foo @tunnckoCore and @bar, right?'')\<rparr>) defaults
     = Inr ((plain (HeaderType \<lparr>type = ''fix'', scope = Absent, subject = ''x''\<rparr>))
        \<lparr>body := Present (Value ''foo @tunnckoCore and @bar, right?''),
         mentions := Present
              [\<lparr>index = 3, handle = ''@tunnckoCore'', mention = ''tunnckoCore''\<rparr>,
               \<lparr>index = 20, handle = ''@bar'', mention = ''bar''\<rparr>]\<rparr>)"
proof -
  let ?h = "\<lparr>type = ''fix'', scope = Absent, subject = ''x''\<rparr>"
  let ?c = "(plain (HeaderType ?h))\<lparr>body := Present (Value ''foo @tunnckoCore and @bar, right?'')\<rparr>"
  have 1: "header ?c = HeaderType ?h" by (simp add: plain_def)
  have 2: "body ?c = Present (Value ''foo @tunnckoCore and @bar, right?'')" by (simp add: plain_def)
  have 3: "getMentions (subject ?h) False = []" by code_simp
  have 4: "getMentions (or_empty (footer ?c)) False = []" by code_simp
  from mentionsPlugin_scenario[OF 1 2 3 4, of defaults] show ?thesis by simp
qed

text \<open>The claim as stated fails: the plugin does not return the indices 4 and 21.\<close>

theorem mentionsPlugin_index_counterexample:
  "mentionsPlugin
     ((plain (HeaderType \<lparr>type = ''fix'', scope = Absent, subject = ''x''\<rparr>))
        \<lparr>body := Present (Value ''foo @tunnckoCore and @bar, right?'')\<rparr>) defaults
     \<noteq> Inr ((plain (HeaderType \<lparr>type = ''fix'', scope = Absent, subject = ''x''\<rparr>))
        \<lparr>body := Present (Value ''foo @tunnckoCore and @bar, right?''),
         mentions := Present
              [\<lparr>index = 4, handle = ''@tunnckoCore'', mention = ''tunnckoCore''\<rparr>,
               \<lparr>index = 21, handle = ''@bar'', mention = ''bar''\<rparr>]\<rparr>)"
  by code_simp

section \<open>Claims about headers given as \<open>{ value }\<close>\<close>

text \<open>
  Claim C6, as amended. \<open>normalizeCommit\<close> returns a commit whose header is already
  structured as it is. For a \<open>{ value }\<close> header it applies \<open>stringToHeader\<close> to the
  value as given, without trimming it: when that yields a header, the result is the commit
  with this header in place of the old one and every other field kept; when it fails, the
  failure is \<open>normalizeCommit\<close>'s. So under the default pattern a value that starts
  with white space is rejected. The result is a new value; the commit passed in is not
  changed.
\<close>

theorem normalizeCommit_cases:
  "(header c = HeaderType h \<longrightarrow> normalizeCommit c opts = Inr c)
   \<and> (header c = SimpleHeader v \<and> stringToHeader v opts = Inr h
        \<longrightarrow> normalizeCommit c opts = Inr (c\<lparr>header := HeaderType h\<rparr>))
   \<and> (header c = SimpleHeader v \<and> stringToHeader v opts = Inl e
        \<longrightarrow> normalizeCommit c opts = Inl e)
   \<and> (header c = SimpleHeader (w # v) \<and> isWhiteSpace w \<and> default_grammar opts
        \<longrightarrow> normalizeCommit c opts = Inl (TypeError errorMsg))"
  by (simp add: normalizeCommit_def stringToHeader_leading_space)

text \<open>
  The three cases at concrete commits: a structured header, a value that follows the
  grammar (its trailing space stays in the subject), and a value that does not.
\<close>

theorem normalizeCommit_cases_witness:
  "normalizeCommit (plain (HeaderType \<lparr>type = ''fix'', scope = Absent, subject = ''bar''\<rparr>)) defaults
     = Inr (plain (HeaderType \<lparr>type = ''fix'', scope = Absent, subject = ''bar''\<rparr>))
   \<and> normalizeCommit (plain (SimpleHeader ''fix: bar '')) defaults
     = Inr (plain (HeaderType \<lparr>type = ''fix'', scope = Present Null, subject = ''bar ''\<rparr>))
   \<and> normalizeCommit (plain (SimpleHeader '' fix: bar'')) defaults = Inl (TypeError errorMsg)"
proof -
  let ?h = "\<lparr>type = ''fix'', scope = Absent, subject = ''bar''\<rparr>"
  let ?k = "\<lparr>type = ''fix'', scope = Present Null, subject = ''bar ''\<rparr>"
  have 1: "header (plain (HeaderType ?h)) = HeaderType ?h" by (simp add: plain_def)
  have 2: "header (plain (SimpleHeader ''fix: bar '')) = SimpleHeader ''fix: bar ''
           \<and> stringToHeader ''fix: bar '' defaults = Inr ?k"
    by code_simp
  have 3: "header (plain (SimpleHeader '' fix: bar'')) = SimpleHeader '' fix: bar''
           \<and> stringToHeader '' fix: bar'' defaults = Inl (TypeError errorMsg)"
    by code_simp
  have u: "(plain (SimpleHeader ''fix: bar ''))\<lparr>header := HeaderType ?k\<rparr> = plain (HeaderType ?k)"
    by (simp add: plain_def)
  have 4: "header (plain (SimpleHeader '' fix: bar'')) = SimpleHeader (CHR '' '' # ''fix: bar'')
           \<and> isWhiteSpace CHR '' '' \<and> default_grammar defaults"
    by code_simp
  from normalizeCommit_cases[where c = "plain (HeaderType ?h)" and h = ?h and opts = defaults] 1
       normalizeCommit_cases[where c = "plain (SimpleHeader ''fix: bar '')" and opts = defaults
         and v = "''fix: bar ''" and h = ?k] 2
       normalizeCommit_cases[where c = "plain (SimpleHeader '' fix: bar'')" and opts = defaults
         and v = "'' fix: bar''" and e = "TypeError errorMsg"] 3
       normalizeCommit_cases[where c = "plain (SimpleHeader '' fix: bar'')" and opts = defaults
         and w = "CHR '' ''" and v = "''fix: bar''"] 4
       u
  show ?thesis by simp
qed

text \<open>
  The claim as stated fails on a value with white space around it. With a leading space
  \<open>normalizeCommit\<close> fails where \<open>stringToHeader\<close> of the trimmed value returns a
  header; with a trailing space it returns the subject \<open>bar \<close> where the trimmed value
  gives \<open>bar\<close>.
\<close>

theorem normalizeCommit_trim_counterexample:
  "stringToHeader (trim '' fix: bar'') defaults
       = Inr \<lparr>type = ''fix'', scope = Present Null, subject = ''bar''\<rparr>
   \<and> normalizeCommit (plain (SimpleHeader '' fix: bar'')) defaults
       \<noteq> Inr (plain (HeaderType \<lparr>type = ''fix'', scope = Present Null, subject = ''bar''\<rparr>))
   \<and> normalizeCommit (plain (SimpleHeader '' fix: bar'')) defaults = Inl (TypeError errorMsg)
   \<and> stringToHeader (trim ''fix: bar '') defaults
       = Inr \<lparr>type = ''fix'', scope = Present Null, subject = ''bar''\<rparr>
   \<and> normalizeCommit (plain (SimpleHeader ''fix: bar '')) defaults
       \<noteq> Inr (plain (HeaderType \<lparr>type = ''fix'', scope = Present Null, subject = ''bar''\<rparr>))
   \<and> normalizeCommit (plain (SimpleHeader ''fix: bar '')) defaults
       = Inr (plain (HeaderType \<lparr>type = ''fix'', scope = Present Null, subject = ''bar ''\<rparr>))"
  by code_simp

text \<open>
  Claim C7, as amended. \<open>stringifyHeader\<close> fails on every \<open>{ value }\<close> header with
  the \<open>TypeError\<close> of \<open>checkHeader\<close>, whatever the value: \<open>checkHeader\<close> asks for
  the shape \<open>HeaderType\<close> first, and nothing on the way applies the header grammar to
  the value.
\<close>

theorem stringifyHeader_raw:
  "stringifyHeader (SimpleHeader v)
     = Inl (TypeError (''header should be of type '' @ [CHR 0x27] @ ''HeaderType'' @ [CHR 0x27]))"
  by (simp add: stringifyHeader_def validateHeader_def checkHeader_def)

text \<open>
  The claim as stated fails: \<open>fix: bar\<close> follows the header grammar, and
  \<open>stringifyHeader\<close> fails on \<open>{ value: "fix: bar" }\<close>.
\<close>

theorem stringifyHeader_raw_counterexample:
  "stringToHeader ''fix: bar'' defaults
     = Inr \<lparr>type = ''fix'', scope = Present Null, subject = ''bar''\<rparr>
   \<and> stringifyHeader (SimpleHeader ''fix: bar'') \<noteq> Inr ''fix: bar''
   \<and> stringifyHeader (SimpleHeader ''fix: bar'')
     = Inl (TypeError (''header should be of type '' @ [CHR 0x27] @ ''HeaderType'' @ [CHR 0x27]))"
  by code_simp

section \<open>Claims about checked commits and the pipeline\<close>

text \<open>
  Claim C8, at the commit that \<open>parseCommit\<close> returns for \<open>feat: awesome yeah\<close>.
  \<open>checkCommit\<close> succeeds on it and returns a structured header, but \<open>body\<close> and
  \<open>footer\<close> are still \<open>undefined\<close>: the spread copies the two properties, which the
  commit has, over the \<open>null\<close> defaults. The \<open>value\<close> of \<open>validateCommit\<close> is the
  same commit.
\<close>

theorem checkCommit_keeps_undefined:
  "(case parseCommit ''feat: awesome yeah'' defaults of
      Inl e \<Rightarrow> Inl e
    | Inr c \<Rightarrow> checkCommit c)
     = Inr \<lparr>header = HeaderType \<lparr>type = ''feat'', scope = Present Null, subject = ''awesome yeah''\<rparr>,
            body = Undefined, footer = Undefined,
            increment = Absent, isBreaking = Absent, mentions = Absent, extra = []\<rparr>
   \<and> (case parseCommit ''feat: awesome yeah'' defaults of
        Inl e \<Rightarrow> None
      | Inr c \<Rightarrow> value_of (validateCommit c))
     = Some \<lparr>header = HeaderType \<lparr>type = ''feat'', scope = Present Null, subject = ''awesome yeah''\<rparr>,
             body = Undefined, footer = Undefined,
             increment = Absent, isBreaking = Absent, mentions = Absent, extra = []\<rparr>"
  by code_simp

text \<open>
  Claim C9. With no plugin, \<open>applyPlugins\<close> runs nothing and cannot fail, and its result
  follows the input item by item: a single item gives a one-element sequence, a sequence
  gives a sequence of the same length in the same order. An item that is a commit object
  is returned with every field as it was. An item that is a string \<open>s\<close> is not returned
  as it was: it is returned as the object \<open>{ header: { value: s } }\<close>, which has no
  other key.
\<close>

theorem applyPlugins_empty:
  "applyPlugins [] (Single (CommitObject c)) opts = Inr [c]
   \<and> applyPlugins [] (Single (CommitString s)) opts
     = Inr [\<lparr>header = SimpleHeader s, body = Absent, footer = Absent, increment = Absent,
             isBreaking = Absent, mentions = Absent, extra = []\<rparr>]
   \<and> applyPlugins [] (Several (map CommitObject cs)) opts = Inr cs
   \<and> applyPlugins [] (Several items) opts
     = Inr (map (\<lambda>item. case item of
                        CommitObject c \<Rightarrow> c
                      | CommitString s \<Rightarrow>
                          \<lparr>header = SimpleHeader s, body = Absent, footer = Absent,
                           increment = Absent, isBreaking = Absent, mentions = Absent,
                           extra = []\<rparr>) items)"
proof -
  have item: "commitObject =
      (\<lambda>item. case item of
                 CommitObject c \<Rightarrow> c
               | CommitString s \<Rightarrow>
                   \<lparr>header = SimpleHeader s, body = Absent, footer = Absent,
                    increment = Absent, isBreaking = Absent, mentions = Absent,
                    extra = []\<rparr>)"
    by (rule ext) (simp add: commitObject_def split: commit_like.splits)
  have several: "applyPlugins [] (Several xs) opts = Inr (map commitObject xs)" for xs
    by (simp add: applyPlugins_def extend_each_empty)
  have single: "applyPlugins [] (Single x) opts = Inr [commitObject x]" for x
    by (simp add: applyPlugins_def extendCommitCb_def)
  have "applyPlugins [] (Several (map CommitObject cs)) opts = Inr cs"
    by (simp add: several commitObject_def comp_def)
  moreover have "applyPlugins [] (Several items) opts
     = Inr (map (\<lambda>item. case item of
                        CommitObject c \<Rightarrow> c
                      | CommitString s \<Rightarrow>
                          \<lparr>header = SimpleHeader s, body = Absent, footer = Absent,
                           increment = Absent, isBreaking = Absent, mentions = Absent,
                           extra = []\<rparr>) items)"
    unfolding several item ..
  ultimately show ?thesis
    by (simp add: single commitObject_def)
qed

text \<open>
  The string \<open>fix: x\<close>, alone and as the first of two items: what comes back in its place
  is the object \<open>{ header: { value: "fix: x" } }\<close>, so the result, read as a sequence of
  commit-likes, is not the input. The object item next to it is returned unchanged.
\<close>

theorem applyPlugins_empty_counterexample:
  "applyPlugins [] (Single (CommitString ''fix: x'')) defaults
     = Inr [\<lparr>header = SimpleHeader ''fix: x'', body = Absent, footer = Absent,
             increment = Absent, isBreaking = Absent, mentions = Absent, extra = []\<rparr>]
   \<and> map_sum id (map CommitObject) (applyPlugins [] (Single (CommitString ''fix: x'')) defaults)
     \<noteq> Inr [CommitString ''fix: x'']
   \<and> applyPlugins []
        (Several [CommitString ''fix: x'',
                  CommitObject \<lparr>header = SimpleHeader ''feat: y'', body = Present (Value ''b''),
                                footer = Present Null, increment = Absent,
                                isBreaking = Absent, mentions = Absent, extra = []\<rparr>])
        defaults
     = Inr [\<lparr>header = SimpleHeader ''fix: x'', body = Absent, footer = Absent,
             increment = Absent, isBreaking = Absent, mentions = Absent, extra = []\<rparr>,
            \<lparr>header = SimpleHeader ''feat: y'', body = Present (Value ''b''),
             footer = Present Null, increment = Absent,
             isBreaking = Absent, mentions = Absent, extra = []\<rparr>]
   \<and> map_sum id (map CommitObject)
        (applyPlugins []
           (Several [CommitString ''fix: x'',
                     CommitObject \<lparr>header = SimpleHeader ''feat: y'', body = Present (Value ''b''),
                                   footer = Present Null, increment = Absent,
                                   isBreaking = Absent, mentions = Absent, extra = []\<rparr>])
           defaults)
     \<noteq> Inr [CommitString ''fix: x'',
             CommitObject \<lparr>header = SimpleHeader ''feat: y'', body = Present (Value ''b''),
                           footer = Present Null, increment = Absent,
                           isBreaking = Absent, mentions = Absent, extra = []\<rparr>]"
  by code_simp

text \<open>
  Claim C10. When the increment plugin returns, its result is the commit it was given with
  the \<open>increment\<close> key set to a string, and nothing else changed; likewise the mentions
  plugin and the \<open>mentions\<close> key. The header in particular is the input's: a commit that
  came with a \<open>{ value }\<close> header leaves with it, although the plugin read a normalized
  copy.
\<close>

theorem plugin_frame:
  "(incrementPlugin c opts = Inr c1 \<longrightarrow>
      c1 = c\<lparr>increment := increment c1\<rparr> \<and> header c1 = header c
      \<and> (\<exists>s. increment c1 = Present (Str s)))
   \<and> (mentionsPlugin c opts = Inr c2 \<longrightarrow>
      c2 = c\<lparr>mentions := mentions c2\<rparr> \<and> header c2 = header c
      \<and> (\<exists>ms. mentions c2 = Present ms))"
  by (auto simp: incrementPlugin_def mentionsPlugin_def Let_def
           split: sum.splits header.splits)

text \<open>
  Both plugins return on a commit with a \<open>{ value }\<close> header that follows the grammar,
  and the header of the result is still that \<open>{ value }\<close> header.
\<close>

theorem plugin_frame_witness:
  "(\<exists>c1. incrementPlugin (plain (SimpleHeader ''feat: x'')) defaults = Inr c1
         \<and> header c1 = SimpleHeader ''feat: x''
         \<and> c1 = (plain (SimpleHeader ''feat: x''))\<lparr>increment := Present (Str ''minor'')\<rparr>)
   \<and> (\<exists>c2. mentionsPlugin (plain (SimpleHeader ''feat: x @me'')) defaults = Inr c2
         \<and> header c2 = SimpleHeader ''feat: x @me''
         \<and> c2 = (plain (SimpleHeader ''feat: x @me''))
                  \<lparr>mentions := Present [\<lparr>index = 1, handle = ''@me'', mention = ''me''\<rparr>]\<rparr>)"
proof -
  let ?a = "plain (SimpleHeader ''feat: x'')"
  let ?b = "plain (SimpleHeader ''feat: x @me'')"
  have i: "incrementPlugin ?a defaults = Inr (?a\<lparr>increment := Present (Str ''minor'')\<rparr>)"
    by code_simp
  have m: "mentionsPlugin ?b defaults
      = Inr (?b\<lparr>mentions := Present [\<lparr>index = 1, handle = ''@me'', mention = ''me''\<rparr>]\<rparr>)"
    by code_simp
  from plugin_frame[of ?a defaults "?a\<lparr>increment := Present (Str ''minor'')\<rparr>"] i
  have "header (?a\<lparr>increment := Present (Str ''minor'')\<rparr>) = header ?a" by blast
  moreover
  from plugin_frame[of ?b defaults _
         "?b\<lparr>mentions := Present [\<lparr>index = 1, handle = ''@me'', mention = ''me''\<rparr>]\<rparr>"] m
  have "header (?b\<lparr>mentions := Present [\<lparr>index = 1, handle = ''@me'', mention = ''me''\<rparr>]\<rparr>)
      = header ?b"
    by blast
  ultimately show ?thesis using i m by (simp add: plain_def)
qed

section \<open>Further properties\<close>

text \<open>
  What \<open>parseCommit\<close> returns for body and footer, for every accepted text: the first
  and the second piece after the header piece of \<open>split("\n\n")\<close>, trimmed, and
  \<open>undefined\<close> for a piece that is not there. Neither field is ever \<open>null\<close>.
\<close>

theorem parseCommit_segments:
  assumes "parseCommit text opts = Inr c"
  shows "body c = (case tl (split_blank text) of
                     [] \<Rightarrow> Undefined
                   | b # rest \<Rightarrow> Present (Value (trim b)))
       \<and> footer c = (case tl (split_blank text) of
                       b # f # rest \<Rightarrow> Present (Value (trim f))
                     | _ \<Rightarrow> Undefined)
       \<and> body c \<noteq> Present Null \<and> footer c \<noteq> Present Null"
  using assms
  by (auto simp: parseCommit_def Let_def split: if_splits sum.splits list.splits)

text \<open>A message with a body and no footer.\<close>

theorem parseCommit_segments_witness:
  "parseCommit (''fix: a'' @ [CHR 0x0A, CHR 0x0A] @ '' b '') defaults
     = Inr ((plain (HeaderType \<lparr>type = ''fix'', scope = Present Null, subject = ''a''\<rparr>))
             \<lparr>body := Present (Value ''b''), footer := Undefined\<rparr>)
   \<and> tl (split_blank (''fix: a'' @ [CHR 0x0A, CHR 0x0A] @ '' b '')) = ['' b '']
   \<and> trim '' b '' = ''b''"
proof -
  let ?t = "''fix: a'' @ [CHR 0x0A, CHR 0x0A] @ '' b ''"
  let ?c = "(plain (HeaderType \<lparr>type = ''fix'', scope = Present Null, subject = ''a''\<rparr>))
           \<lparr>body := Present (Value ''b''), footer := Undefined\<rparr>"
  have p: "parseCommit ?t defaults = Inr ?c" by code_simp
  have s: "tl (split_blank ?t) = ['' b '']" by code_simp
  from parseCommit_segments[OF p] s have "Present (Value ''b'') = Present (Value (trim '' b ''))"
    by (simp add: plain_def)
  with p s show ?thesis by simp
qed

text \<open>
  What \<open>checkCommit\<close> returns when it succeeds: the header is structured, with a
  non-empty type and subject, and the result is the commit with \<open>body\<close> and \<open>footer\<close>
  set to \<open>null\<close> where the key was missing. A key that is present keeps its value.
\<close>

theorem checkCommit_result:
  assumes "checkCommit c = Inr c'"
  shows "\<exists>h. header c = HeaderType h \<and> type h \<noteq> [] \<and> subject h \<noteq> []
           \<and> c' = c\<lparr>body := with_default Null (body c), footer := with_default Null (footer c)\<rparr>"
  using assms
  by (auto simp: checkCommit_def validateHeader_def checkHeader_def Let_def isNonEmptyString_def
           split: header.splits if_splits)

text \<open>A commit without the two keys.\<close>

theorem checkCommit_result_witness:
  "checkCommit (plain (HeaderType \<lparr>type = ''fix'', scope = Absent, subject = ''a''\<rparr>))
     = Inr ((plain (HeaderType \<lparr>type = ''fix'', scope = Absent, subject = ''a''\<rparr>))
              \<lparr>body := Present Null, footer := Present Null\<rparr>)"
proof -
  let ?c = "plain (HeaderType \<lparr>type = ''fix'', scope = Absent, subject = ''a''\<rparr>)"
  have p: "checkCommit ?c = Inr (?c\<lparr>body := Present Null, footer := Present Null\<rparr>)" by code_simp
  from checkCommit_result[OF p] p show ?thesis by simp
qed

text \<open>
  \<open>checkHeader\<close> returns the header it was given, and accepts it again: checking twice
  is checking once.
\<close>

theorem checkHeader_idempotent:
  assumes "checkHeader hdr = Inr h"
  shows "hdr = HeaderType h \<and> checkHeader (HeaderType h) = Inr h"
  using assms
  by (auto simp: checkHeader_def Let_def split: header.splits if_splits)

text \<open>The header of the repository's test of \<open>checkHeader\<close> with a scope.\<close>

theorem checkHeader_idempotent_witness:
  "checkHeader (HeaderType \<lparr>type = ''fix'', scope = Present (Value ''huh''), subject = ''yeah yeah''\<rparr>)
     = Inr \<lparr>type = ''fix'', scope = Present (Value ''huh''), subject = ''yeah yeah''\<rparr>"
proof -
  let ?h = "\<lparr>type = ''fix'', scope = Present (Value ''huh''), subject = ''yeah yeah''\<rparr>"
  have p: "checkHeader (HeaderType ?h) = Inr ?h" by code_simp
  from checkHeader_idempotent[OF p] show ?thesis by simp
qed

text \<open>
  The index of a mention is where the match of the pattern starts: the sigil stands at
  the index, or right after it when the match starts with the character before the sigil.
\<close>

theorem getMentions_index:
  "x \<in> set (getMentions s dot) \<Longrightarrow>
     (\<exists>rest. drop (index x) s = CHR ''@'' # rest \<or> drop (Suc (index x)) s = CHR ''@'' # rest)"
  using collect_index[of x dot s 0] by (simp add: getMentions_def)

text \<open>The first mention of \<open>foo @tunnckoCore and @bar, right?\<close>: its sigil is at offset 4.\<close>

theorem getMentions_index_witness:
  "\<lparr>index = 3, handle = ''@tunnckoCore'', mention = ''tunnckoCore''\<rparr>
     \<in> set (getMentions ''foo @tunnckoCore and @bar, right?'' False)
   \<and> (\<exists>rest. drop 3 ''foo @tunnckoCore and @bar, right?'' = CHR ''@'' # rest
            \<or> drop (Suc 3) ''foo @tunnckoCore and @bar, right?'' = CHR ''@'' # rest)"
proof -
  let ?x = "\<lparr>index = 3, handle = ''@tunnckoCore'', mention = ''tunnckoCore''\<rparr>"
  have m: "?x \<in> set (getMentions ''foo @tunnckoCore and @bar, right?'' False)"
    by (simp add: getMentions_scenario)
  from getMentions_index[OF m] m show ?thesis by simp
qed

end
